theory Spec2Isabelle
  imports Main
begin

unbundle bit_operations_syntax

section \<open>Data model of Utils/BinaryParser.py\<close>

text \<open>
  Every exception the decoder can raise is a value. All checks of
  \<^verbatim>\<open>check_struct\<close> and \<^verbatim>\<open>parse_struct_from_hex\<close> raise Python's
  \<^verbatim>\<open>AssertionError\<close>; the argument records which assertion it was (the source
  tells them apart by message only).
\<close>

datatype assertion =
    OddLength           \<comment> \<open>BinaryParser.py line 37\<close>
  | LengthMismatch      \<comment> \<open>line 41\<close>
  | PackedBeforeSimple  \<comment> \<open>line 125\<close>
  | NotTwoElements      \<comment> \<open>line 128\<close>
  | NotMultipleOf8      \<comment> \<open>line 143\<close>
  | Overflow            \<comment> \<open>line 148\<close>
  | ContainerChanged    \<comment> \<open>line 153\<close>

datatype error =
    AssertionError assertion | ValueError | TypeError | IndexError | OverflowError

text \<open>
  The values of a decoded structure: integers for numeric fields, text for array and
  string fields, an ordered mapping for a nested structure. An \<^verbatim>\<open>OrderedDict\<close> is
  an association list in insertion order.
\<close>

datatype pyval = VInt int | VStr string | VDict "(string \<times> pyval) list"

text \<open>
  A handler is the callable third element of a field tuple. It is the caller's code,
  so it may return any value or raise.
\<close>

type_synonym handler = "pyval \<Rightarrow> error + pyval"

text \<open>
  The value stored under a field name in the \<^verbatim>\<open>fields\<close> mapping:
  \<^item> \<open>Simple w\<close>: the integer \<open>w\<close> (\<^verbatim>\<open>fields["f"] = TYPE_8_BITS\<close>);
  \<^item> \<open>Packed w c h\<close>: the tuple \<open>(w, c)\<close> or \<open>(w, c, h)\<close>, \<open>w\<close> bits inside a
    container of \<open>c\<close> bits;
  \<^item> \<open>Array n h\<close>: the tuple \<open>(n, TYPE_ARRAY)\<close>, \<open>String n h\<close>: \<open>(n, TYPE_STRING)\<close>;
  \<^item> \<open>Struct s h\<close>: the tuple \<open>(s, TYPE_STRUCT)\<close> with \<open>s\<close> another mapping;
  \<^item> \<open>Short\<close>: a tuple with fewer than two elements.
  The handler slot is \<open>None\<close> when the tuple has no third element or a third element
  that is not callable. Field names of one mapping are distinct, the mapping being a
  dictionary.
\<close>

datatype field =
    Simple int
  | Packed int int "handler option"
  | Array int "handler option"
  | String int "handler option"
  | Struct "(string \<times> field) list" "handler option"
  | Short

type_synonym schema = "(string \<times> field) list"

section \<open>Utils/Tools.py\<close>

text \<open>
  Python's slice \<^verbatim>\<open>s[a:b]\<close> for integers \<open>a\<close> and \<open>b\<close>: a negative index counts
  from the end, and both are clipped to the string.
\<close>

definition py_index :: "int \<Rightarrow> int \<Rightarrow> int" where
  "py_index n i = (if i < 0 then max 0 (i + n) else min i n)"

definition py_slice :: "'a list \<Rightarrow> int \<Rightarrow> int \<Rightarrow> 'a list" where
  "py_slice s a b =
     (let n = int (length s); a' = py_index n a; b' = py_index n b
      in take (nat (b' - a')) (drop (nat a') s))"

text \<open>
  \<^verbatim>\<open>int(s, 16)\<close> on a string of hexadecimal digits; the empty string raises
  \<^verbatim>\<open>ValueError\<close>. The signs, blanks, prefix and underscores that Python also
  accepts do not occur in a hex string; they are a \<^verbatim>\<open>ValueError\<close> here.
\<close>

definition hex_digit :: "char \<Rightarrow> int option" where
  "hex_digit c =
     (let n = (of_char c :: nat) in
      if 48 \<le> n \<and> n \<le> 57 then Some (int n - 48)
      else if 97 \<le> n \<and> n \<le> 102 then Some (int n - 87)
      else if 65 \<le> n \<and> n \<le> 70 then Some (int n - 55)
      else None)"

fun hex_value :: "string \<Rightarrow> int \<Rightarrow> int option" where
  "hex_value [] acc = Some acc"
| "hex_value (c # cs) acc =
     (case hex_digit c of None \<Rightarrow> None | Some d \<Rightarrow> hex_value cs (16 * acc + d))"

definition int16 :: "string \<Rightarrow> error + int" where
  "int16 s =
     (if s = [] then Inl ValueError
      else case hex_value s 0 of None \<Rightarrow> Inl ValueError | Some n \<Rightarrow> Inr n)"

definition is_hex_string :: "string \<Rightarrow> bool" where
  "is_hex_string s = list_all (\<lambda>c. hex_digit c \<noteq> None) s"

text \<open>\<^verbatim>\<open>get_byte_from_hex(position, hex_string)\<close>\<close>

definition get_byte_from_hex :: "int \<Rightarrow> string \<Rightarrow> error + int" where
  "get_byte_from_hex position hex_string =
     int16 (py_slice hex_string (2 * position) (2 * (position + 1)))"

text \<open>
  \<^verbatim>\<open>hex_string_to_char_string\<close>: the loop over \<^verbatim>\<open>range(0, int(len(hex_string)/2))\<close>
  appends one character per byte; \<^verbatim>\<open>chr\<close> of a byte value is \<open>char_of\<close>.
\<close>

fun chars_loop :: "nat list \<Rightarrow> string \<Rightarrow> string \<Rightarrow> error + string" where
  "chars_loop [] hex_string str = Inr str"
| "chars_loop (byte_n # ns) hex_string str =
     (case get_byte_from_hex (int byte_n) hex_string of
        Inl e \<Rightarrow> Inl e
      | Inr b \<Rightarrow> chars_loop ns hex_string (str @ [char_of b]))"

definition hex_string_to_char_string :: "string \<Rightarrow> error + string" where
  "hex_string_to_char_string hex_string =
     chars_loop [0 ..< length hex_string div 2] hex_string []"

text \<open>
  \<^verbatim>\<open>extract_value_from_hex\<close>: shift right by \<open>start_bit\<close>, mask \<open>length_bits\<close> bits.
  A negative shift count raises \<^verbatim>\<open>ValueError\<close>; with a negative length
  \<^verbatim>\<open>2**length_bits\<close> is a float and \<^verbatim>\<open>&=\<close> raises \<^verbatim>\<open>TypeError\<close>.
\<close>

definition extract_value_from_hex :: "string \<Rightarrow> int \<Rightarrow> int \<Rightarrow> error + int" where
  "extract_value_from_hex hex_string start_bit length_bits =
     (case int16 hex_string of
        Inl e \<Rightarrow> Inl e
      | Inr result \<Rightarrow>
          if start_bit < 0 then Inl ValueError
          else if length_bits < 0 then Inl TypeError
          else Inr (drop_bit (nat start_bit) result AND (2 ^ nat length_bits - 1)))"

text \<open>
  \<^verbatim>\<open>convert_endianess\<close>: for \<open>i\<close> in \<^verbatim>\<open>range(0, length, 2)\<close> the slice
  \<^verbatim>\<open>hex_string[(length-i-2):(length-i)]\<close> is appended to the result.
\<close>

definition range2 :: "nat \<Rightarrow> int list" where
  "range2 n = map (\<lambda>k. 2 * int k) [0 ..< (n + 1) div 2]"

definition convert_endianess :: "string \<Rightarrow> string" where
  "convert_endianess hex_string =
     (let length = int (length hex_string)
      in concat (map (\<lambda>i. py_slice hex_string (length - i - 2) (length - i))
                     (range2 (nat length))))"

section \<open>Utils/BinaryParser.py\<close>

subsection \<open>\<^verbatim>\<open>check_struct\<close>\<close>

text \<open>
  Lines 143 to 159, common to every kind of field: the check that the container is a
  multiple of 8 bits, then the update of the loop state
  \<open>(total_length_sum_bits, packed_field_offset, prev_container_length)\<close>.
\<close>

definition check_container ::
  "int \<Rightarrow> int \<Rightarrow> int \<Rightarrow> bool \<Rightarrow> int \<Rightarrow> int \<Rightarrow> error + int \<times> int \<times> int" where
  "check_container total_length_sum_bits packed_field_offset prev_container_length
                   is_first_field field_length current_container_length =
     (if current_container_length mod 8 \<noteq> 0 then Inl (AssertionError NotMultipleOf8)
      else let packed_field_offset = packed_field_offset + field_length in
        if packed_field_offset > current_container_length
          then Inl (AssertionError Overflow)
        else if packed_field_offset < current_container_length
          then (if \<not> is_first_field \<and> prev_container_length \<noteq> current_container_length
                then Inl (AssertionError ContainerChanged)
                else Inr (total_length_sum_bits, packed_field_offset,
                          current_container_length))
        else Inr (total_length_sum_bits + packed_field_offset, 0,
                  current_container_length))"

text \<open>
  \<^verbatim>\<open>check_struct\<close>. Lines 122 to 141 (\<open>check_lengths\<close>) give \<open>field_length\<close> and
  \<open>current_container_length\<close> of one field; the loop over the fields has its three
  variables as arguments and returns their final values, of which
  \<^verbatim>\<open>check_struct\<close> returns the first.
\<close>

fun check_struct :: "schema \<Rightarrow> error + int"
and check_struct_loop :: "schema \<Rightarrow> int \<Rightarrow> int \<Rightarrow> int \<Rightarrow> error + int \<times> int \<times> int"
and check_lengths :: "field \<Rightarrow> int \<Rightarrow> error + int \<times> int" where
  "check_struct fields =
     (case check_struct_loop fields 0 0 0 of
        Inl e \<Rightarrow> Inl e
      | Inr (total_length_sum_bits, _, _) \<Rightarrow> Inr total_length_sum_bits)"
| "check_struct_loop [] tot off prev = Inr (tot, off, prev)"
| "check_struct_loop ((field_name, f) # rest) tot off prev =
     (case check_lengths f off of
        Inl e \<Rightarrow> Inl e
      | Inr (field_length, current_container_length) \<Rightarrow>
         (case check_container tot off prev (off = 0) field_length
                 current_container_length of
            Inl e \<Rightarrow> Inl e
          | Inr (tot', off', prev') \<Rightarrow> check_struct_loop rest tot' off' prev'))"
| "check_lengths (Simple w) off =
     (if off \<noteq> 0 then Inl (AssertionError PackedBeforeSimple) else Inr (w, w))"
| "check_lengths Short off = Inl (AssertionError NotTwoElements)"
| "check_lengths (Array n h) off = Inr (n, n)"
| "check_lengths (String n h) off = Inr (n, n)"
| "check_lengths (Struct sub h) off =
     (case check_struct sub of Inl e \<Rightarrow> Inl e | Inr l \<Rightarrow> Inr (l, l))"
| "check_lengths (Packed w c h) off = Inr (w, c)"

subsection \<open>\<^verbatim>\<open>parse_struct_from_hex\<close>\<close>

text \<open>
  What the failed assertion of line 41 raises. Its message is built first (lines 42
  and 43) and formats \<^verbatim>\<open>struct_length/8\<close>, under Python 3 a division of floats:
  it raises \<^verbatim>\<open>OverflowError\<close> when the quotient rounds to \<open>2 ^ 1024\<close> or more,
  which is when the length is at least \<open>2 ^ 1027 - 2 ^ 973\<close> bits in absolute value.
  Otherwise the \<^verbatim>\<open>AssertionError\<close> is raised.
\<close>

definition length_mismatch :: "int \<Rightarrow> error" where
  "length_mismatch struct_length =
     (if 2 ^ 1027 - 2 ^ 973 \<le> \<bar>struct_length\<bar> then OverflowError
      else AssertionError LengthMismatch)"

text \<open>
  \<^verbatim>\<open>int(x/4)\<close>: the quotient truncated towards zero. (Python 3 divides as floats;
  the quotient is exact for the lengths a string can have.)
\<close>

definition int_div4 :: "int \<Rightarrow> int" where
  "int_div4 x = (if 0 \<le> x then x div 4 else - ((- x) div 4))"

text \<open>
  Lines 62 to 73: \<open>(container_field_length, packed_field_length)\<close> of one field. A
  tuple without a second element raises \<^verbatim>\<open>IndexError\<close> at line 54.
\<close>

fun field_lengths :: "field \<Rightarrow> error + int \<times> int" where
  "field_lengths (Simple w) = Inr (w, w)"
| "field_lengths Short = Inl IndexError"
| "field_lengths (Array n h) = Inr (n, n)"
| "field_lengths (String n h) = Inr (n, n)"
| "field_lengths (Struct sub h) =
     (case check_struct sub of Inl e \<Rightarrow> Inl e | Inr l \<Rightarrow> Inr (l, l))"
| "field_lengths (Packed w c h) = Inr (c, w)"

text \<open>
  Lines 76 to 83: at the first field of a container the container is cut out of the
  hex string and the bit offset restarts; otherwise the state is left as it is. The
  result is the new \<open>(container_fields_offset, packed_field_offset, container_value)\<close>.
  \<^verbatim>\<open>int(container_start_char + container_field_length/4)\<close> is the truncation of
  \<open>(4 * container_start_char + container_field_length) / 4\<close>.
\<close>

definition extract_container ::
  "string \<Rightarrow> int \<Rightarrow> int \<Rightarrow> bool \<Rightarrow> string \<Rightarrow> int \<Rightarrow> int \<times> int \<times> string" where
  "extract_container hex_string container_fields_offset packed_field_offset
                     first_packed_field container_value container_field_length =
     (if first_packed_field then
        (let container_start_char = int_div4 container_fields_offset;
             container_end_char = int_div4 (4 * container_start_char + container_field_length)
         in (container_fields_offset + container_field_length, 0,
             py_slice hex_string container_start_char container_end_char))
      else (container_fields_offset, packed_field_offset, container_value))"

text \<open>
  Lines 97 to 99: the handler of a field that is not a simple one, when its tuple has
  a callable third element, replaces the stored value by its result.
\<close>

fun handler_of :: "field \<Rightarrow> handler option" where
  "handler_of (Simple w) = None"
| "handler_of Short = None"
| "handler_of (Array n h) = h"
| "handler_of (String n h) = h"
| "handler_of (Struct sub h) = h"
| "handler_of (Packed w c h) = h"

definition apply_handler :: "handler option \<Rightarrow> pyval \<Rightarrow> error + pyval" where
  "apply_handler h v = (case h of None \<Rightarrow> Inr v | Some f \<Rightarrow> f v)"

text \<open>
  \<^verbatim>\<open>parse_struct_from_hex\<close>. The loop has the state \<open>container_fields_offset\<close>
  (\<open>cfo\<close>), \<open>packed_field_offset\<close> (\<open>pfo\<close>), \<open>first_packed_field\<close> (\<open>first\<close>) and
  \<open>container_value\<close> (\<open>cv\<close>: \<^verbatim>\<open>None\<close> before the first field, which always
  assigns it). Lines 86 to 95 (\<open>field_value\<close>) give the decoded value of one field
  and the container value, which a numeric field leaves byte-reversed. The names of a
  mapping being distinct, each \<^verbatim>\<open>fields_parsed[field] = v\<close> appends one entry to
  the result.
\<close>

function (sequential) parse_struct_from_hex :: "schema \<Rightarrow> string \<Rightarrow> error + (string \<times> pyval) list"
and parse_struct_loop ::
  "schema \<Rightarrow> string \<Rightarrow> int \<Rightarrow> int \<Rightarrow> bool \<Rightarrow> string \<Rightarrow> error + (string \<times> pyval) list"
and field_value :: "field \<Rightarrow> bool \<Rightarrow> string \<Rightarrow> int \<Rightarrow> int \<Rightarrow> error + pyval \<times> string" where
  "parse_struct_from_hex fields hex_string =
     (if length hex_string mod 2 \<noteq> 0 then Inl (AssertionError OddLength)
      else case check_struct fields of
        Inl e \<Rightarrow> Inl e
      | Inr struct_length \<Rightarrow>
          if struct_length \<noteq> int (length hex_string) * 4
          then Inl (length_mismatch struct_length)
          else parse_struct_loop fields hex_string 0 0 True [])"
| "parse_struct_loop [] hs cfo pfo first cv = Inr []"
| "parse_struct_loop ((name, f) # rest) hs cfo pfo first cv =
     (case field_lengths f of
        Inl e \<Rightarrow> Inl e
      | Inr (container_field_length, packed_field_length) \<Rightarrow>
         (case extract_container hs cfo pfo first cv container_field_length of
            (cfo', pfo', cv') \<Rightarrow>
             (case field_value f first cv' pfo' packed_field_length of
                Inl e \<Rightarrow> Inl e
              | Inr (v, cv'') \<Rightarrow>
                 (case apply_handler (handler_of f) v of
                    Inl e \<Rightarrow> Inl e
                  | Inr v' \<Rightarrow>
                     (case parse_struct_loop rest hs cfo' (pfo' + packed_field_length)
                             (pfo' + packed_field_length = container_field_length) cv'' of
                        Inl e \<Rightarrow> Inl e
                      | Inr r \<Rightarrow> Inr ((name, v') # r))))))"
| "field_value (Array n h) first cv pfo len = Inr (VStr cv, cv)"
| "field_value (String n h) first cv pfo len =
     (case hex_string_to_char_string cv of
        Inl e \<Rightarrow> Inl e
      | Inr str \<Rightarrow> Inr (VStr str, cv))"
| "field_value (Struct sub h) first cv pfo len =
     (case parse_struct_from_hex sub cv of
        Inl e \<Rightarrow> Inl e
      | Inr r \<Rightarrow> Inr (VDict r, cv))"
| "field_value f first cv pfo len =
     (let cv' = (if first then convert_endianess cv else cv) in
      case extract_value_from_hex cv' pfo len of
        Inl e \<Rightarrow> Inl e
      | Inr n \<Rightarrow> Inr (VInt n, cv'))"
  by pat_completeness auto

text \<open>
  The recursion ends: a structure field is smaller than the schema that holds it, and
  its nested schema is smaller than the field.
\<close>

termination
  by (relation "measure (\<lambda>x. case x of
          Inl (fs, hs) \<Rightarrow> 3 * size_list (size_prod (\<lambda>x. 0) size) fs + 2
        | Inr (Inl (fs, r)) \<Rightarrow> 3 * size_list (size_prod (\<lambda>x. 0) size) fs + 1
        | Inr (Inr (f, r)) \<Rightarrow> 3 * size f)") auto

subsection \<open>The schema and payload of \<^verbatim>\<open>BinaryParserTester.test_hex_parser\<close>\<close>

text \<open>
  The two handlers of the test: \<^verbatim>\<open>lambda x: "ONE" if x == 1 else "NOT ONE"\<close> and
  \<^verbatim>\<open>lambda x: x+1\<close>, which raises \<^verbatim>\<open>TypeError\<close> on text and on a mapping.
\<close>

definition field2_handler :: handler where
  "field2_handler x =
     Inr (VStr (case x of VInt n \<Rightarrow> if n = 1 then ''ONE'' else ''NOT ONE''
                        | _ \<Rightarrow> ''NOT ONE''))"

definition field4_handler :: handler where
  "field4_handler x = (case x of VInt n \<Rightarrow> Inr (VInt (n + 1)) | _ \<Rightarrow> Inl TypeError)"

definition sub_struct_format :: schema where
  "sub_struct_format =
     [(''sub_field_1'', Simple 8),
      (''sub_field_2'', Packed 7 16 None),
      (''sub_field_3'', Packed 9 16 None),
      (''sub_field_4'', String (7 * 8) None)]"

definition test_fields :: schema where
  "test_fields =
     [(''field1'', Simple 8),
      (''field2'', Packed 5 8 (Some field2_handler)),
      (''field3'', Packed 3 8 None),
      (''field4'', Packed 12 16 (Some field4_handler)),
      (''field5'', Packed 4 16 None),
      (''sub_struct_0'', Struct sub_struct_format None),
      (''sub_struct_1'', Struct sub_struct_format None),
      (''sub_struct_2'', Struct sub_struct_format None),
      (''field6'', Simple 16),
      (''field7'', String (7 * 8) None)]"

definition test_hex_string :: string where
  "test_hex_string =
     ''8fe37156'' @ ''f87ae5'' @ ''31206162632031'' @ ''a87ae3'' @ ''32206162632032''
       @ ''f87ae5'' @ ''33206162632033'' @ ''11ff'' @ ''55727567756179''"

section \<open>Schemas that keep the layout invariants\<close>

text \<open>
  A handler returns a value on every raw value of the kind its field decodes to.
\<close>

definition handler_returns :: "handler option \<Rightarrow> pyval set \<Rightarrow> bool" where
  "handler_returns h A = (case h of None \<Rightarrow> True | Some f \<Rightarrow> \<forall>v\<in>A. \<exists>v'. f v = Inr v')"

text \<open>
  The layout invariants of a schema, read along the fields with the number \<open>off\<close> of
  bits already used in the open container of \<open>prev\<close> bits (\<open>off = 0\<close>: no container is
  open): every width is positive (an array or string may be empty), every container
  is a multiple of 8 bits, the packed fields of one container have that container's
  width and fill it exactly, no container is left open at the end of a schema or in
  front of a simple field, an array, a string or a structure, nested schemas keep the
  invariants too, and handlers return values.
\<close>

fun well_formed_loop :: "schema \<Rightarrow> int \<Rightarrow> int \<Rightarrow> bool" where
  "well_formed_loop [] off prev = (off = 0)"
| "well_formed_loop ((name, Simple w) # rest) off prev =
     (off = 0 \<and> 0 < w \<and> w mod 8 = 0 \<and> well_formed_loop rest 0 w)"
| "well_formed_loop ((name, Packed w c h) # rest) off prev =
     (0 < w \<and> c mod 8 = 0 \<and> off + w \<le> c \<and> (off = 0 \<or> prev = c)
      \<and> handler_returns h (range VInt)
      \<and> well_formed_loop rest (if off + w = c then 0 else off + w) c)"
| "well_formed_loop ((name, Array n h) # rest) off prev =
     (off = 0 \<and> 0 \<le> n \<and> n mod 8 = 0 \<and> handler_returns h (range VStr)
      \<and> well_formed_loop rest 0 n)"
| "well_formed_loop ((name, String n h) # rest) off prev =
     (off = 0 \<and> 0 \<le> n \<and> n mod 8 = 0 \<and> handler_returns h (range VStr)
      \<and> well_formed_loop rest 0 n)"
| "well_formed_loop ((name, Struct sub h) # rest) off prev =
     (off = 0 \<and> well_formed_loop sub 0 0 \<and> handler_returns h (range VDict)
      \<and> well_formed_loop rest 0 0)"
| "well_formed_loop ((name, Short) # rest) off prev = False"

definition well_formed :: "schema \<Rightarrow> bool" where
  "well_formed fields = well_formed_loop fields 0 0"

text \<open>
  The container widths that the simple and packed fields of a schema declare, those
  of nested schemas included.
\<close>

fun container_widths :: "schema \<Rightarrow> int list" where
  "container_widths [] = []"
| "container_widths ((name, Simple w) # rest) = w # container_widths rest"
| "container_widths ((name, Packed w c h) # rest) = c # container_widths rest"
| "container_widths ((name, Struct sub h) # rest) =
     container_widths sub @ container_widths rest"
| "container_widths ((name, f) # rest) = container_widths rest"

text \<open>The same field without its handler.\<close>

fun strip_handler :: "field \<Rightarrow> field" where
  "strip_handler (Array n h) = Array n None"
| "strip_handler (String n h) = String n None"
| "strip_handler (Struct sub h) = Struct sub None"
| "strip_handler (Packed w c h) = Packed w c None"
| "strip_handler f = f"

text \<open>
  A handler that keeps the value it is given visible in its result:
  \<^verbatim>\<open>lambda x: OrderedDict([("wrapped", x)])\<close>.
\<close>

definition wrap_handler :: handler where
  "wrap_handler x = Inr (VDict [(''wrapped'', x)])"

text \<open>
  The loop state of \<^verbatim>\<open>parse_struct_from_hex\<close> agrees with the state
  \<open>(tot, off, prev)\<close> of \<^verbatim>\<open>check_struct\<close> at the same field: with no container
  open the next field starts one at the bits checked so far; inside a container of
  \<open>prev\<close> bits the bit offsets are equal and the container is already counted in
  \<open>container_fields_offset\<close>.
\<close>

definition state_ok :: "int \<Rightarrow> int \<Rightarrow> int \<Rightarrow> int \<Rightarrow> int \<Rightarrow> bool \<Rightarrow> bool" where
  "state_ok tot off prev cfo pfo first =
     (0 \<le> tot \<and> tot mod 8 = 0 \<and>
      (if off = 0 then first \<and> cfo = tot
       else \<not> first \<and> pfo = off \<and> 0 < off \<and> off < prev \<and> prev mod 8 = 0
            \<and> cfo = tot + prev))"

text \<open>
  A run of packed fields that share a container of \<open>c\<close> bits, each given by its name,
  its width and its handler slot, in the order of declaration.
\<close>

definition packed_run :: "int \<Rightarrow> (string \<times> int \<times> handler option) list \<Rightarrow> schema" where
  "packed_run c run = map (\<lambda>(name, w, h). (name, Packed w c h)) run"

text \<open>The sum of the widths of the first \<open>i\<close> fields of a run.\<close>

definition start_bit :: "(string \<times> int \<times> handler option) list \<Rightarrow> nat \<Rightarrow> int" where
  "start_bit run i = sum_list (map (\<lambda>(name, w, h). w) (take i run))"

text \<open>
  The \<open>w\<close> bits of the number \<open>V\<close> from bit \<open>start\<close> upwards, bit 0 being the least
  significant one.
\<close>

definition bits :: "int \<Rightarrow> int \<Rightarrow> int \<Rightarrow> int" where
  "bits V start w = (V div 2 ^ nat start) mod 2 ^ nat w"

text \<open>Three packed fields of 2, 3 and 3 bits, for one container of 8 bits.\<close>

definition three_fields :: "(string \<times> int \<times> handler option) list" where
  "three_fields = [(''a'', 2, None), (''b'', 3, None), (''c'', 3, None)]"

section \<open>The examples of the specification\<close>

text \<open>
  C2. Decoding the schema of \<^verbatim>\<open>test_hex_parser\<close> over its payload gives
  \<open>field1 = 0x8f\<close>, \<open>field3 = 0b111\<close>, \<open>field4 = 0x672\<close>, \<open>field5 = 0x5\<close>, the texts
  \<open>1 abc 1\<close>, \<open>2 abc 2\<close>, \<open>3 abc 3\<close> as \<open>sub_field_4\<close> of the three nested structures,
  \<open>field6 = 0xff11\<close> and \<open>field7 = Uruguay\<close>; the other entries are those the test
  asserts.
\<close>

theorem canonical_decode:
  "parse_struct_from_hex test_fields test_hex_string =
     Inr [(''field1'', VInt 0x8f),
          (''field2'', VStr ''NOT ONE''),
          (''field3'', VInt 7),
          (''field4'', VInt 0x672),
          (''field5'', VInt 0x5),
          (''sub_struct_0'',
             VDict [(''sub_field_1'', VInt 0xf8), (''sub_field_2'', VInt 0x7a),
                    (''sub_field_3'', VInt (2 * 0xe5)), (''sub_field_4'', VStr ''1 abc 1'')]),
          (''sub_struct_1'',
             VDict [(''sub_field_1'', VInt 0xa8), (''sub_field_2'', VInt 0x7a),
                    (''sub_field_3'', VInt (2 * 0xe3)), (''sub_field_4'', VStr ''2 abc 2'')]),
          (''sub_struct_2'',
             VDict [(''sub_field_1'', VInt 0xf8), (''sub_field_2'', VInt 0x7a),
                    (''sub_field_3'', VInt (2 * 0xe5)), (''sub_field_4'', VStr ''3 abc 3'')]),
          (''field6'', VInt 0xff11),
          (''field7'', VStr ''Uruguay'')]"
  by code_simp

text \<open>
  C4. Endian normalisation reverses bytes, not nibbles: \<open>f135\<close> becomes \<open>35f1\<close>, and
  a schema of one 16-bit simple field decodes \<open>f135\<close> to the integer \<open>0x35f1\<close>.
\<close>

theorem endianness_f135:
  "convert_endianess ''f135'' = ''35f1'' \<and>
   parse_struct_from_hex [(''field'', Simple 16)] ''f135'' = Inr [(''field'', VInt 0x35f1)]"
  by code_simp

section \<open>What \<^verbatim>\<open>check_struct\<close> accepts\<close>

text \<open>
  C6. A container left under-filled at the very end of the schema is not rejected:
  for the single field \<open>(3, TYPE_8_BITS)\<close>, \<^verbatim>\<open>check_struct\<close> returns the length 0
  instead of raising. The schema it has accepted cannot be decoded: on the payload of
  that length, \<^verbatim>\<open>parse_struct_from_hex\<close> raises the \<^verbatim>\<open>ValueError\<close> of
  \<^verbatim>\<open>int\<close> on the empty string.
\<close>

theorem check_struct_trailing_underfill:
  "check_struct [(''a'', Packed 3 8 None)] = Inr 0 \<and>
   parse_struct_from_hex [(''a'', Packed 3 8 None)] [] = Inl ValueError"
  by code_simp

text \<open>
  C8. A field that changes the container width before the open container is full is
  not rejected when its width brings the offset exactly to the new container width:
  for \<open>(3, TYPE_8_BITS)\<close> followed by \<open>(13, TYPE_16_BITS)\<close>, \<^verbatim>\<open>check_struct\<close>
  returns the length 16 instead of raising. On a payload of 16 bits the decoder then
  reads both fields from the first byte and never reads the second.
\<close>

theorem check_struct_container_change_accepted:
  "check_struct [(''a'', Packed 3 8 None), (''b'', Packed 13 16 None)] = Inr 16 \<and>
   parse_struct_from_hex [(''a'', Packed 3 8 None), (''b'', Packed 13 16 None)] ''abcd''
     = Inr [(''a'', VInt 3), (''b'', VInt 21)]"
  by code_simp

section \<open>Byte reversal\<close>

lemma py_slice_inside:
  "0 \<le> a \<Longrightarrow> a \<le> b \<Longrightarrow> b \<le> int (length s) \<Longrightarrow>
   py_slice s a b = take (nat (b - a)) (drop (nat a) s)"
  by (simp add: py_slice_def py_index_def Let_def min_def)

lemma range2_even: "range2 (2 * m) = map (\<lambda>k. 2 * int k) [0 ..< m]"
  by (simp add: range2_def)

lemma convert_endianess_even:
  assumes "length s = 2 * m"
  shows "convert_endianess s =
         concat (map (\<lambda>k. take 2 (drop (2 * m - 2 * k - 2) s)) [0 ..< m])"
proof -
  have "map (\<lambda>i. py_slice s (int (length s) - i - 2) (int (length s) - i)) (range2 (length s))
      = map (\<lambda>k. take 2 (drop (2 * m - 2 * k - 2) s)) [0 ..< m]"
    unfolding assms range2_even map_map
  proof (rule map_cong[OF refl])
    fix k assume "k \<in> set [0 ..< m]"
    then have k: "k < m" by simp
    have "py_slice s (int (2 * m) - 2 * int k - 2) (int (2 * m) - 2 * int k)
        = take (nat ((int (2 * m) - 2 * int k) - (int (2 * m) - 2 * int k - 2)))
               (drop (nat (int (2 * m) - 2 * int k - 2)) s)"
      using k assms by (intro py_slice_inside) auto
    also have "nat (int (2 * m) - 2 * int k - 2) = 2 * m - 2 * k - 2" by linarith
    finally show "((\<lambda>i. py_slice s (int (2 * m) - i - 2) (int (2 * m) - i)) \<circ> (\<lambda>k. 2 * int k)) k
        = take 2 (drop (2 * m - 2 * k - 2) s)" by simp
  qed
  then show ?thesis by (simp add: convert_endianess_def Let_def)
qed

lemma convert_endianess_Cons2:
  assumes "even (length s)"
  shows "convert_endianess (a # b # s) = convert_endianess s @ [a, b]"
proof -
  from assms obtain m where m: "length s = 2 * m" by (auto elim: evenE)
  have l: "length (a # b # s) = 2 * Suc m" using m by simp
  define f where "f = (\<lambda>k. take 2 (drop (2 * Suc m - 2 * k - 2) (a # b # s)))"
  define g where "g = (\<lambda>k. take 2 (drop (2 * m - 2 * k - 2) s))"
  have fg: "map f [0 ..< m] = map g [0 ..< m]"
  proof (rule map_cong[OF refl])
    fix k assume "k \<in> set [0 ..< m]"
    then have k: "k < m" by simp
    then have "2 * Suc m - 2 * k - 2 = Suc (Suc (2 * m - 2 * k - 2))" by arith
    then show "f k = g k" by (simp add: f_def g_def)
  qed
  have fm: "f m = [a, b]" by (simp add: f_def)
  have "convert_endianess (a # b # s) = concat (map f [0 ..< Suc m])"
    unfolding f_def by (rule convert_endianess_even[OF l])
  also have "\<dots> = concat (map f [0 ..< m]) @ f m" by simp
  also have "\<dots> = concat (map g [0 ..< m]) @ [a, b]" by (simp only: fg fm)
  also have "concat (map g [0 ..< m]) = convert_endianess s"
    unfolding g_def by (rule convert_endianess_even[OF m, symmetric])
  finally show ?thesis .
qed

lemma convert_endianess_Nil: "convert_endianess [] = []"
  by (simp add: convert_endianess_def range2_def)

lemma even_list_induct [consumes 1, case_names Nil Cons2]:
  assumes "even (length s)" "P []" "\<And>a b s. even (length s) \<Longrightarrow> P s \<Longrightarrow> P (a # b # s)"
  shows "P s"
  using assms(1)
proof (induction s rule: length_induct)
  case (1 xs)
  show ?case
  proof (cases xs)
    case Nil then show ?thesis using assms(2) by simp
  next
    case (Cons a ys)
    with 1(2) obtain b zs where ys: "ys = b # zs" by (cases ys) auto
    with Cons 1 have "even (length zs)" "P zs" by auto
    then show ?thesis using assms(3) Cons ys by simp
  qed
qed

lemma convert_endianess_snoc2:
  assumes "even (length s)"
  shows "convert_endianess (s @ [a, b]) = a # b # convert_endianess s"
  using assms
proof (induction s rule: even_list_induct)
  case Nil
  have "convert_endianess [a, b] = convert_endianess [] @ [a, b]"
    by (rule convert_endianess_Cons2) simp
  then show ?case by (simp add: convert_endianess_Nil)
next
  case (Cons2 x y s)
  have "convert_endianess (x # y # (s @ [a, b])) = convert_endianess (s @ [a, b]) @ [x, y]"
    using Cons2(1) by (intro convert_endianess_Cons2) simp
  then show ?case using Cons2 by (simp add: convert_endianess_Cons2)
qed

lemma convert_endianess_length:
  assumes "even (length s)" shows "length (convert_endianess s) = length s"
  using assms
  by (induction s rule: even_list_induct) (simp_all add: convert_endianess_Nil convert_endianess_Cons2)

lemma convert_endianess_set:
  assumes "even (length s)" shows "set (convert_endianess s) = set s"
  using assms
  by (induction s rule: even_list_induct) (auto simp: convert_endianess_Nil convert_endianess_Cons2)

lemma convert_endianess_twice:
  assumes "even (length s)" shows "convert_endianess (convert_endianess s) = s"
  using assms
proof (induction s rule: even_list_induct)
  case Nil show ?case by (simp add: convert_endianess_Nil)
next
  case (Cons2 a b s)
  have "even (length (convert_endianess s))" using Cons2(1) by (simp add: convert_endianess_length)
  then show ?case using Cons2 by (simp add: convert_endianess_Cons2 convert_endianess_snoc2)
qed

text \<open>
  C9. \<^verbatim>\<open>convert_endianess\<close> is an involution on the strings of even length, and
  the identity on the strings of two characters (one byte).
\<close>

theorem convert_endianess_involution:
  "(even (length s) \<longrightarrow> convert_endianess (convert_endianess s) = s) \<and>
   (length s = 2 \<longrightarrow> convert_endianess s = s)"
proof -
  have "convert_endianess s = s" if "length s = 2"
  proof -
    from that obtain a b where "s = [a, b]"
      by (cases s; cases "tl s") auto
    moreover have "convert_endianess [a, b] = convert_endianess [] @ [a, b]"
      by (rule convert_endianess_Cons2) simp
    ultimately show ?thesis by (simp add: convert_endianess_Nil)
  qed
  then show ?thesis using convert_endianess_twice by blast
qed

theorem convert_endianess_involution_witness:
  "even (length ''0f512332'')
   \<and> convert_endianess (convert_endianess ''0f512332'') = ''0f512332''
   \<and> length ''9f'' = 2 \<and> convert_endianess ''9f'' = ''9f''"
  using convert_endianess_involution [of "''0f512332''"] convert_endianess_involution [of "''9f''"]
  by simp


section \<open>Container widths\<close>

lemma check_container_mod8:
  "check_container tot off prev b fl cur = Inr r \<Longrightarrow> cur mod 8 = 0"
  by (simp add: check_container_def split: if_splits)

lemma check_widths:
  "check_struct S = Inr n \<Longrightarrow> \<forall>c\<in>set (container_widths S). c mod 8 = 0"
  "check_struct_loop fs tot off prev = Inr r \<Longrightarrow> \<forall>c\<in>set (container_widths fs). c mod 8 = 0"
  "check_lengths f off' = Inr lc \<Longrightarrow>
     (\<forall>sub h. f = Struct sub h \<longrightarrow> (\<forall>c\<in>set (container_widths sub). c mod 8 = 0))"
proof (induction S and fs tot off prev and f off' arbitrary: n and r and lc
       rule: check_struct_check_struct_loop_check_lengths.induct)
  case (1 fields)
  then show ?case by (auto split: sum.splits)
next
  case (2 tot off prev)
  then show ?case by simp
next
  case (3 field_name f rest tot off prev)
  from "3.prems" obtain fl cur where lc: "check_lengths f off = Inr (fl, cur)"
    by (auto split: sum.splits)
  with "3.prems" obtain t' o' p' where
    cc: "check_container tot off prev (off = 0) fl cur = Inr (t', o', p')"
    and rest: "check_struct_loop rest t' o' p' = Inr r"
    by (auto split: sum.splits)
  have cur: "cur mod 8 = 0" using cc by (rule check_container_mod8)
  have R: "\<forall>c\<in>set (container_widths rest). c mod 8 = 0"
    using "3.IH"(2)[OF lc refl cc refl refl rest] .
  have F: "\<forall>sub h. f = Struct sub h \<longrightarrow> (\<forall>c\<in>set (container_widths sub). c mod 8 = 0)"
    using "3.IH"(1)[OF lc] .
  show ?case
    using lc cur R F by (cases f) (auto split: if_splits)
next
  case (8 sub h off)
  then show ?case by (auto split: sum.splits simp del: check_struct.simps)
qed simp_all

text \<open>
  C7, as the code has it. \<^verbatim>\<open>check_struct\<close> rejects every schema in which a simple
  field or a packed field, at any depth of nesting, declares a container width that
  is not a multiple of 8 bits. A width that is a multiple of 8 outside 8, 16 and 32
  is accepted.
\<close>

theorem check_struct_rejects_non_multiple_of_8:
  "\<exists>c\<in>set (container_widths S). c mod 8 \<noteq> 0 \<Longrightarrow> \<exists>e. check_struct S = Inl e"
  using check_widths(1)[of S] by (cases "check_struct S") auto

theorem check_struct_rejects_non_multiple_of_8_witness:
  "(\<exists>c\<in>set (container_widths [(''a'', Simple 8), (''s'', Struct [(''b'', Packed 4 12 None)] None)]). c mod 8 \<noteq> 0)
   \<and> check_struct [(''a'', Simple 8), (''s'', Struct [(''b'', Packed 4 12 None)] None)]
       = Inl (AssertionError NotMultipleOf8)"
  using check_struct_rejects_non_multiple_of_8
          [of "[(''a'', Simple 8), (''s'', Struct [(''b'', Packed 4 12 None)] None)]"]
  by (simp add: check_container_def)

text \<open>
  Against C7 as stated: the schema of the single simple field of 24 bits is accepted,
  with the length 24.
\<close>

theorem check_struct_accepts_24:
  "24 \<in> set (container_widths [(''a'', Simple 24)]) \<and> (24 :: int) \<notin> {8, 16, 32}
   \<and> check_struct [(''a'', Simple 24)] = Inr 24"
  by (simp add: check_container_def)


section \<open>Handlers\<close>

lemma check_lengths_strip_handler [simp]:
  "check_lengths (strip_handler f) off = check_lengths f off"
  by (cases f) (simp_all del: check_struct.simps)

lemma field_lengths_strip_handler [simp]:
  "field_lengths (strip_handler f) = field_lengths f"
  by (cases f) (simp_all del: check_struct.simps)

lemma field_value_strip_handler [simp]:
  "field_value (strip_handler f) first cv pfo len = field_value f first cv pfo len"
  by (cases f) (simp_all del: parse_struct_from_hex.simps)

lemma handler_of_strip_handler [simp]: "handler_of (strip_handler f) = None"
  by (cases f) simp_all

lemma check_struct_loop_strip_handler:
  "check_struct_loop (pre @ (name, strip_handler f) # post) tot off prev
     = check_struct_loop (pre @ (name, f) # post) tot off prev"
  by (induction pre arbitrary: tot off prev)
     (auto split: sum.splits prod.splits)

lemma check_struct_strip_handler:
  "check_struct (pre @ (name, strip_handler f) # post) = check_struct (pre @ (name, f) # post)"
  by (simp add: check_struct_loop_strip_handler)

lemma parse_struct_loop_handler:
  assumes "handler_of f = Some h"
      and "parse_struct_loop (pre @ (name, strip_handler f) # post) hs cfo pfo first cv = Inr r"
  shows "length pre < length r \<and> fst (r ! length pre) = name \<and>
         parse_struct_loop (pre @ (name, f) # post) hs cfo pfo first cv =
           (case h (snd (r ! length pre)) of
              Inl e \<Rightarrow> Inl e
            | Inr v \<Rightarrow> Inr (r[length pre := (name, v)]))"
  using assms(2)
proof (induction pre arbitrary: cfo pfo first cv r)
  case Nil
  then show ?case using assms(1)
    by (auto simp: apply_handler_def split: sum.splits prod.splits)
next
  case (Cons a pre)
  obtain n0 f0 where a: "a = (n0, f0)" by (cases a)
  from Cons.prems obtain cfl pfl cfo' pfo' cv' v cv'' v' r1 where
    st: "field_lengths f0 = Inr (cfl, pfl)"
        "extract_container hs cfo pfo first cv cfl = (cfo', pfo', cv')"
        "field_value f0 first cv' pfo' pfl = Inr (v, cv'')"
        "apply_handler (handler_of f0) v = Inr v'"
    and rest: "parse_struct_loop (pre @ (name, strip_handler f) # post) hs cfo' (pfo' + pfl)
                 (pfo' + pfl = cfl) cv'' = Inr r1"
    and r: "r = (n0, v') # r1"
    unfolding a by (auto split: sum.splits prod.splits)
  from Cons.IH[OF rest] st r show ?case
    unfolding a by (auto split: sum.splits)
qed

text \<open>
  C10. A field whose tuple carries a callable third element \<open>h\<close> stores \<open>h\<close> applied
  to the decoded value of the field, whatever the kind of the field (packed integer,
  array text, string text or the mapping of a nested structure): where the schema
  with this field's handler removed decodes to \<open>r\<close>, the schema itself decodes to
  \<open>r\<close> with the entry of the field replaced by \<open>h\<close> of its value, and raises what
  \<open>h\<close> raises.
\<close>

theorem handler_applied_to_every_kind:
  assumes "handler_of f = Some h"
      and "parse_struct_from_hex (pre @ (name, strip_handler f) # post) hs = Inr r"
  shows "length pre < length r \<and> fst (r ! length pre) = name \<and>
         parse_struct_from_hex (pre @ (name, f) # post) hs =
           (case h (snd (r ! length pre)) of
              Inl e \<Rightarrow> Inl e
            | Inr v \<Rightarrow> Inr (r[length pre := (name, v)]))"
proof -
  from assms(2) have
    len: "length hs mod 2 = 0" and
    chk: "check_struct (pre @ (name, strip_handler f) # post) = Inr (int (length hs) * 4)" and
    loop: "parse_struct_loop (pre @ (name, strip_handler f) # post) hs 0 0 True [] = Inr r"
    by (auto simp del: check_struct.simps split: if_splits sum.splits)
  from chk have chk': "check_struct (pre @ (name, f) # post) = Inr (int (length hs) * 4)"
    by (simp only: check_struct_strip_handler)
  from parse_struct_loop_handler[OF assms(1) loop] len chk' show ?thesis
    by (simp del: check_struct.simps)
qed


theorem handler_applied_to_every_kind_witness:
  "parse_struct_from_hex [(''p'', Packed 8 8 (Some wrap_handler))] ''7f''
     = Inr [(''p'', VDict [(''wrapped'', VInt 0x7f)])] \<and>
   parse_struct_from_hex [(''a'', Array 16 (Some wrap_handler))] ''0102''
     = Inr [(''a'', VDict [(''wrapped'', VStr ''0102'')])] \<and>
   parse_struct_from_hex [(''s'', String 16 (Some wrap_handler))] ''4142''
     = Inr [(''s'', VDict [(''wrapped'', VStr ''AB'')])] \<and>
   parse_struct_from_hex [(''t'', Struct [(''x'', Simple 8)] (Some wrap_handler))] ''ff''
     = Inr [(''t'', VDict [(''wrapped'', VDict [(''x'', VInt 0xff)])])]"
proof -
  have p: "parse_struct_from_hex ([] @ (''p'', strip_handler (Packed 8 8 (Some wrap_handler))) # [])
             ''7f'' = Inr [(''p'', VInt 0x7f)]"
    by code_simp
  have a: "parse_struct_from_hex ([] @ (''a'', strip_handler (Array 16 (Some wrap_handler))) # [])
             ''0102'' = Inr [(''a'', VStr ''0102'')]"
    by code_simp
  have s: "parse_struct_from_hex ([] @ (''s'', strip_handler (String 16 (Some wrap_handler))) # [])
             ''4142'' = Inr [(''s'', VStr ''AB'')]"
    by code_simp
  have t: "parse_struct_from_hex
             ([] @ (''t'', strip_handler (Struct [(''x'', Simple 8)] (Some wrap_handler))) # [])
             ''ff'' = Inr [(''t'', VDict [(''x'', VInt 0xff)])]"
    by code_simp
  have h: "handler_of (Packed 8 8 (Some wrap_handler)) = Some wrap_handler"
          "handler_of (Array 16 (Some wrap_handler)) = Some wrap_handler"
          "handler_of (String 16 (Some wrap_handler)) = Some wrap_handler"
          "handler_of (Struct [(''x'', Simple 8)] (Some wrap_handler)) = Some wrap_handler"
    by simp_all
  show ?thesis
    using handler_applied_to_every_kind[OF h(1) p] handler_applied_to_every_kind[OF h(2) a]
          handler_applied_to_every_kind[OF h(3) s] handler_applied_to_every_kind[OF h(4) t]
    by (simp add: wrap_handler_def del: parse_struct_from_hex.simps)
qed


section \<open>Decoding succeeds exactly on input of the validated length\<close>

subsection \<open>\<^verbatim>\<open>check_struct\<close> on a schema that keeps the invariants\<close>

lemma well_formed_loop_prev:
  "well_formed_loop fs 0 p = well_formed_loop fs 0 p'"
proof (cases fs)
  case Nil then show ?thesis by simp
next
  case (Cons a rest)
  obtain n f where "a = (n, f)" by (cases a)
  then show ?thesis using Cons by (cases f) simp_all
qed

lemma check_container_first:
  "check_container tot 0 p True fl cur = check_container tot 0 p' True fl cur"
  by (simp add: check_container_def)

lemma check_struct_loop_prev:
  assumes "check_struct_loop fs tot 0 p = Inr (T, off, q)"
  shows "\<exists>q'. check_struct_loop fs tot 0 p' = Inr (T, off, q')"
proof (cases fs)
  case Nil then show ?thesis using assms by simp
next
  case (Cons a rest)
  obtain n f where "a = (n, f)" by (cases a)
  then show ?thesis using Cons assms check_container_first[of tot p _ _ p']
    by (auto split: sum.splits simp del: check_lengths.simps)
qed

lemma well_formed_check:
  assumes "well_formed_loop fs off prev"
      and "off = 0 \<or> (0 < off \<and> off < prev \<and> prev mod 8 = 0)"
      and "0 \<le> tot" "tot mod 8 = 0"
  shows "\<exists>T p. check_struct_loop fs tot off prev = Inr (T, 0, p) \<and> T mod 8 = 0
               \<and> (if off = 0 then tot else tot + prev) \<le> T"
  using assms
proof (induction fs off prev arbitrary: tot rule: well_formed_loop.induct)
  case (1 off prev)
  then show ?case by auto
next
  case (2 name w rest off prev)
  then have wf: "well_formed_loop rest 0 w" and w: "0 < w" "w mod 8 = 0" and off: "off = 0"
    by auto
  have "0 \<le> tot + w" "(tot + w) mod 8 = 0" using 2 w by (auto simp: mod_add_eq[symmetric])
  from "2.IH"[OF wf _ this] obtain T p where
    "check_struct_loop rest (tot + w) 0 w = Inr (T, 0, p)" "T mod 8 = 0" "tot + w \<le> T"
    by auto
  then show ?case using w off by (auto simp: check_container_def)
next
  case (3 name w c h rest off prev)
  let ?off' = "if off + w = c then 0 else off + w"
  let ?tot' = "if off + w = c then tot + c else tot"
  from "3.prems" have wf: "well_formed_loop rest ?off' c"
    and w: "0 < w" "c mod 8 = 0" "off + w \<le> c" "off = 0 \<or> prev = c"
    by auto
  have v: "?off' = 0 \<or> (0 < ?off' \<and> ?off' < c \<and> c mod 8 = 0)"
    using w "3.prems"(2) by auto
  have t: "0 \<le> ?tot'" "?tot' mod 8 = 0"
    using w "3.prems" by (auto simp: mod_add_eq[symmetric])
  from "3.IH"[OF wf v t] obtain T p where
    T: "check_struct_loop rest ?tot' ?off' c = Inr (T, 0, p)" "T mod 8 = 0"
       "(if ?off' = 0 then ?tot' else ?tot' + c) \<le> T"
    by auto
  have cc: "check_container tot off prev (off = 0) w c = Inr (?tot', ?off', c)"
    using w "3.prems"(2) by (auto simp: check_container_def)
  show ?case using T cc w "3.prems"(2) by (auto split: if_splits)
next
  case (4 name n h rest off prev)
  then have wf: "well_formed_loop rest 0 n" and w: "0 \<le> n" "n mod 8 = 0" and off: "off = 0"
    by auto
  have "0 \<le> tot + n" "(tot + n) mod 8 = 0" using 4 w by (auto simp: mod_add_eq[symmetric])
  from "4.IH"[OF wf _ this] obtain T p where
    "check_struct_loop rest (tot + n) 0 n = Inr (T, 0, p)" "T mod 8 = 0" "tot + n \<le> T"
    by auto
  then show ?case using w off by (auto simp: check_container_def)
next
  case (5 name n h rest off prev)
  then have wf: "well_formed_loop rest 0 n" and w: "0 \<le> n" "n mod 8 = 0" and off: "off = 0"
    by auto
  have "0 \<le> tot + n" "(tot + n) mod 8 = 0" using 5 w by (auto simp: mod_add_eq[symmetric])
  from "5.IH"[OF wf _ this] obtain T p where
    "check_struct_loop rest (tot + n) 0 n = Inr (T, 0, p)" "T mod 8 = 0" "tot + n \<le> T"
    by auto
  then show ?case using w off by (auto simp: check_container_def)
next
  case (6 name sub h rest off prev)
  then have wfs: "well_formed_loop sub 0 0" and wf: "well_formed_loop rest 0 0" and off: "off = 0"
    by auto
  from "6.IH"(1)[OF wfs, of 0] obtain l p0 where
    l: "check_struct_loop sub 0 0 0 = Inr (l, 0, p0)" "l mod 8 = 0" "0 \<le> l"
    by auto
  then have cs: "check_struct sub = Inr l" by simp
  have wf': "well_formed_loop rest 0 l" using wf well_formed_loop_prev by blast
  have "0 \<le> tot + l" "(tot + l) mod 8 = 0" using 6 l by (auto simp: mod_add_eq[symmetric])
  from "6.IH"(2)[OF wf _ this] obtain T p where
    T: "check_struct_loop rest (tot + l) 0 0 = Inr (T, 0, p)" "T mod 8 = 0" "tot + l \<le> T"
    by auto
  from check_struct_loop_prev[OF T(1), of l] obtain p' where
    "check_struct_loop rest (tot + l) 0 l = Inr (T, 0, p')" by auto
  then show ?case using T l cs off
    by (auto simp: check_container_def simp del: check_struct.simps)
qed simp


subsection \<open>Strings of hexadecimal digits\<close>

lemma hex_value_Some: "is_hex_string s \<Longrightarrow> \<exists>n. hex_value s acc = Some n"
  by (induction s arbitrary: acc) (auto simp: is_hex_string_def)

lemma int16_Inr: "is_hex_string s \<Longrightarrow> s \<noteq> [] \<Longrightarrow> \<exists>n. int16 s = Inr n"
  using hex_value_Some[of s 0] by (auto simp: int16_def)

lemma is_hex_string_subset: "is_hex_string s \<Longrightarrow> set t \<subseteq> set s \<Longrightarrow> is_hex_string t"
  by (auto simp: is_hex_string_def list_all_iff)

lemma is_hex_string_py_slice: "is_hex_string s \<Longrightarrow> is_hex_string (py_slice s a b)"
proof (erule is_hex_string_subset)
  show "set (py_slice s a b) \<subseteq> set s"
    unfolding py_slice_def Let_def
    by (meson set_take_subset set_drop_subset subset_trans)
qed

lemma is_hex_string_convert_endianess:
  "is_hex_string s \<Longrightarrow> even (length s) \<Longrightarrow> is_hex_string (convert_endianess s)"
  by (erule is_hex_string_subset) (simp add: convert_endianess_set)

lemma py_slice_length:
  "0 \<le> a \<Longrightarrow> 0 \<le> n \<Longrightarrow> a + n \<le> int (length s) \<Longrightarrow> length (py_slice s a (a + n)) = nat n"
  by (simp add: py_slice_inside)

lemma extract_value_from_hex_Inr:
  "is_hex_string s \<Longrightarrow> s \<noteq> [] \<Longrightarrow> 0 \<le> start \<Longrightarrow> 0 \<le> len \<Longrightarrow>
   \<exists>n. extract_value_from_hex s start len = Inr n"
  using int16_Inr[of s] by (auto simp: extract_value_from_hex_def)

lemma get_byte_from_hex_Inr:
  assumes "is_hex_string s" "2 * n + 2 \<le> length s"
  shows "\<exists>b. get_byte_from_hex (int n) s = Inr b"
proof -
  have "length (py_slice s (2 * int n) (2 * int n + 2)) = nat 2"
    using assms(2) by (intro py_slice_length) auto
  then have "py_slice s (2 * int n) (2 * (int n + 1)) \<noteq> []"
    by (auto simp: algebra_simps)
  then show ?thesis
    unfolding get_byte_from_hex_def
    by (intro int16_Inr is_hex_string_py_slice assms(1))
qed

lemma chars_loop_Inr:
  "is_hex_string s \<Longrightarrow> \<forall>n\<in>set ns. 2 * n + 2 \<le> length s \<Longrightarrow> \<exists>r. chars_loop ns s acc = Inr r"
proof (induction ns arbitrary: acc)
  case Nil then show ?case by simp
next
  case (Cons n ns)
  from get_byte_from_hex_Inr[OF Cons.prems(1), of n] Cons.prems(2)
  obtain b where "get_byte_from_hex (int n) s = Inr b" by auto
  then show ?case using Cons by simp
qed

lemma hex_string_to_char_string_Inr:
  "is_hex_string s \<Longrightarrow> \<exists>r. hex_string_to_char_string s = Inr r"
  unfolding hex_string_to_char_string_def
  by (rule chars_loop_Inr) auto

lemma mod8_E:
  assumes "(x::int) mod 8 = 0" "0 \<le> x"
  obtains k where "x = 8 * k" "0 \<le> k" "x div 4 = 2 * k"
proof -
  from assms(1) obtain k where k: "x = 8 * k" by (auto elim: dvdE dest: mod_0_imp_dvd)
  moreover from k assms(2) have "0 \<le> k" by simp
  moreover from k have "x div 4 = 2 * k" by simp
  ultimately show ?thesis by (rule that)
qed

lemma extract_container_first:
  assumes "0 \<le> cfo" "cfo mod 8 = 0" "0 \<le> cfl" "cfl mod 8 = 0"
  shows "extract_container hs cfo pfo True cv cfl =
           (cfo + cfl, 0, py_slice hs (cfo div 4) (cfo div 4 + cfl div 4))"
proof -
  from assms(2,1) obtain a where a: "cfo = 8 * a" "0 \<le> a" "cfo div 4 = 2 * a" by (rule mod8_E)
  from assms(4,3) obtain b where b: "cfl = 8 * b" "0 \<le> b" "cfl div 4 = 2 * b" by (rule mod8_E)
  have "(4 * (2 * a) + 8 * b) div 4 = 2 * a + 2 * b" by simp
  then show ?thesis using a b
    by (simp add: extract_container_def int_div4_def Let_def)
qed

lemma container_length:
  assumes "0 \<le> tot" "tot mod 8 = 0" "0 \<le> c" "c mod 8 = 0"
          "tot + c \<le> 4 * int (length hs)"
  shows "4 * int (length (py_slice hs (tot div 4) (tot div 4 + c div 4))) = c"
    and "even (length (py_slice hs (tot div 4) (tot div 4 + c div 4)))"
proof -
  from assms(2,1) obtain a where a: "tot = 8 * a" "0 \<le> a" "tot div 4 = 2 * a" by (rule mod8_E)
  from assms(4,3) obtain b where b: "c = 8 * b" "0 \<le> b" "c div 4 = 2 * b" by (rule mod8_E)
  have "2 * a + 2 * b \<le> int (length hs)" using assms(5) a(1) b(1) by simp
  then have len: "length (py_slice hs (2 * a) (2 * a + 2 * b)) = nat (2 * b)"
    using a(2) b(2) by (intro py_slice_length) auto
  have n: "nat (2 * b) = 2 * nat b" using b(2) by simp
  show "4 * int (length (py_slice hs (tot div 4) (tot div 4 + c div 4))) = c"
    using len n a b by simp
  show "even (length (py_slice hs (tot div 4) (tot div 4 + c div 4)))"
    using len n a b by simp
qed


subsection \<open>The decoding loop on a schema that keeps the invariants\<close>

lemma apply_handler_returns:
  "handler_returns h A \<Longrightarrow> v \<in> A \<Longrightarrow> \<exists>v'. apply_handler h v = Inr v'"
  by (cases h) (auto simp: handler_returns_def apply_handler_def)

lemma parse_struct_loop_Cons_Inr:
  "field_lengths f = Inr (cfl, pfl) \<Longrightarrow>
   extract_container hs cfo pfo first cv cfl = (cfo', pfo', cv') \<Longrightarrow>
   field_value f first cv' pfo' pfl = Inr (v, cv'') \<Longrightarrow>
   apply_handler (handler_of f) v = Inr v' \<Longrightarrow>
   parse_struct_loop rest hs cfo' (pfo' + pfl) (pfo' + pfl = cfl) cv'' = Inr r \<Longrightarrow>
   parse_struct_loop ((name, f) # rest) hs cfo pfo first cv = Inr ((name, v') # r)"
  by simp

lemma extract_container_not_first:
  "extract_container hs cfo pfo False cv cfl = (cfo, pfo, cv)"
  by (simp add: extract_container_def)

lemma convert_endianess_nonempty:
  "even (length s) \<Longrightarrow> s \<noteq> [] \<Longrightarrow> convert_endianess s \<noteq> []"
  using convert_endianess_length[of s] by auto

text \<open>A numeric field over a fresh container.\<close>

lemma numeric_first:
  assumes "is_hex_string cv" "even (length cv)" "cv \<noteq> []" "0 \<le> w"
      and "f = Simple x \<or> f = Packed y z h"
  shows "\<exists>n. field_value f True cv 0 w = Inr (VInt n, convert_endianess cv)"
proof -
  from extract_value_from_hex_Inr[OF is_hex_string_convert_endianess[OF assms(1,2)]
         convert_endianess_nonempty[OF assms(2,3)] _ assms(4), of 0]
  obtain n where "extract_value_from_hex (convert_endianess cv) 0 w = Inr n" by auto
  then show ?thesis using assms(5) by (auto simp: Let_def)
qed

lemma numeric_next:
  assumes "is_hex_string cv" "cv \<noteq> []" "0 \<le> w" "0 \<le> pfo"
  shows "\<exists>n. field_value (Packed y z h) False cv pfo w = Inr (VInt n, cv)"
proof -
  from extract_value_from_hex_Inr[OF assms(1,2,4,3)]
  obtain n where "extract_value_from_hex cv pfo w = Inr n" by auto
  then show ?thesis by (auto simp: Let_def)
qed


lemma fresh_container:
  assumes "is_hex_string H" "state_ok tot 0 prev cfo pfo first" "0 \<le> c" "c mod 8 = 0"
          "tot + c \<le> 4 * int (length H)"
  obtains cv' where "extract_container H cfo pfo first cv c = (tot + c, 0, cv')"
    "is_hex_string cv'" "4 * int (length cv') = c" "even (length cv')"
    "cv' = py_slice H (tot div 4) (tot div 4 + c div 4)"
proof -
  from assms(2) have st: "first" "cfo = tot" "0 \<le> tot" "tot mod 8 = 0"
    by (auto simp: state_ok_def)
  show ?thesis
  proof (rule that)
    show "extract_container H cfo pfo first cv c
            = (tot + c, 0, py_slice H (tot div 4) (tot div 4 + c div 4))"
      using extract_container_first[OF st(3,4) assms(3,4)] st(1,2) by simp
    show "is_hex_string (py_slice H (tot div 4) (tot div 4 + c div 4))"
      by (rule is_hex_string_py_slice[OF assms(1)])
    show "4 * int (length (py_slice H (tot div 4) (tot div 4 + c div 4))) = c"
         "even (length (py_slice H (tot div 4) (tot div 4 + c div 4)))"
      by (rule container_length[OF st(3,4) assms(3,4,5)])+
  qed simp
qed

lemma check_total_bound:
  assumes "well_formed_loop fs off prev"
      and "off = 0 \<or> (0 < off \<and> off < prev \<and> prev mod 8 = 0)"
      and "0 \<le> tot" "tot mod 8 = 0"
      and "check_struct_loop fs tot off prev = Inr (T, off', p)"
  shows "(if off = 0 then tot else tot + prev) \<le> T" "T mod 8 = 0" "off' = 0"
  using well_formed_check[OF assms(1-4)] assms(5) by auto

lemma state_ok_valid:
  "state_ok tot off prev cfo pfo first \<Longrightarrow> off = 0 \<or> (0 < off \<and> off < prev \<and> prev mod 8 = 0)"
  by (auto simp: state_ok_def split: if_splits)

lemma state_ok_tot:
  "state_ok tot off prev cfo pfo first \<Longrightarrow> 0 \<le> tot \<and> tot mod 8 = 0"
  by (auto simp: state_ok_def)

lemma mod8_add: "(a::int) mod 8 = 0 \<Longrightarrow> b mod 8 = 0 \<Longrightarrow> (a + b) mod 8 = 0"
  by (simp add: mod_add_eq[symmetric])

text \<open>One field that is its own container: the states after it.\<close>

lemma own_container_step:
  assumes wf: "well_formed_loop rest 0 q" and H: "is_hex_string H"
      and st: "state_ok tot 0 prev cfo pfo first"
      and n: "0 \<le> n" "n mod 8 = 0"
      and chk: "check_struct_loop rest (tot + n) 0 n = Inr (T, off', p)"
      and T: "T \<le> 4 * int (length H)"
  shows "tot + n \<le> 4 * int (length H)" "state_ok (tot + n) 0 q (tot + n) (0 + n) (0 + n = n)"
        "\<exists>p'. check_struct_loop rest (tot + n) 0 q = Inr (T, off', p')"
proof -
  have t: "0 \<le> tot + n" "(tot + n) mod 8 = 0"
    using state_ok_tot[OF st] n by (auto intro: mod8_add)
  from check_struct_loop_prev[OF chk, of q] obtain p' where
    chk': "check_struct_loop rest (tot + n) 0 q = Inr (T, off', p')" by auto
  from check_total_bound(1)[OF wf _ t chk'] T show "tot + n \<le> 4 * int (length H)" by simp
  show "state_ok (tot + n) 0 q (tot + n) (0 + n) (0 + n = n)" using t by (simp add: state_ok_def)
  show "\<exists>p'. check_struct_loop rest (tot + n) 0 q = Inr (T, off', p')" using chk' by blast
qed


lemma parse_struct_loop_succeeds:
  assumes "well_formed_loop fs off prev" "is_hex_string H"
          "state_ok tot off prev cfo pfo first"
          "off \<noteq> 0 \<longrightarrow> is_hex_string cv \<and> cv \<noteq> []"
          "check_struct_loop fs tot off prev = Inr (T, off', p)"
          "T \<le> 4 * int (length H)"
  shows "\<exists>r. parse_struct_loop fs H cfo pfo first cv = Inr r"
  using assms
proof (induction fs off prev arbitrary: H tot cfo pfo first cv T off' p
       rule: well_formed_loop.induct)
  case (1 off prev)
  show ?case by simp
next
  case (2 name w rest off prev)
  from "2.prems"(1) have off: "off = 0" and w: "0 < w" "w mod 8 = 0"
    and wf: "well_formed_loop rest 0 w" by auto
  note st = "2.prems"(3)[unfolded off]
  have chk: "check_struct_loop rest (tot + w) 0 w = Inr (T, off', p)"
    using "2.prems"(5) w off by (simp add: check_container_def)
  have w0: "0 \<le> w" using w by simp
  note step = own_container_step[OF wf "2.prems"(2) st w0 w(2) chk "2.prems"(6)]
  from fresh_container[OF "2.prems"(2) st w0 w(2) step(1), of cv]
  obtain cv' where cv': "extract_container H cfo pfo first cv w = (tot + w, 0, cv')"
    "is_hex_string cv'" "4 * int (length cv') = w" "even (length cv')" by blast
  have ne: "cv' \<noteq> []" using cv'(3) w(1) by auto
  have first: "first" using st by (simp add: state_ok_def)
  from numeric_first[OF cv'(2,4) ne w0, of "Simple w" w]
  obtain n where fv: "field_value (Simple w) first cv' 0 w = Inr (VInt n, convert_endianess cv')"
    using first by auto
  from "2.IH"[OF wf "2.prems"(2) step(2) _ chk "2.prems"(6), of "convert_endianess cv'"]
  obtain r where "parse_struct_loop rest H (tot + w) (0 + w) (0 + w = w) (convert_endianess cv') = Inr r"
    by auto
  from parse_struct_loop_Cons_Inr[OF _ cv'(1) fv _ this, of "VInt n" name]
  show ?case using off by (simp add: apply_handler_def)
next
  case (4 name n h rest off prev)
  from "4.prems"(1) have off: "off = 0" and n: "0 \<le> n" "n mod 8 = 0"
    and hr: "handler_returns h (range VStr)"
    and wf: "well_formed_loop rest 0 n" by auto
  note st = "4.prems"(3)[unfolded off]
  have chk: "check_struct_loop rest (tot + n) 0 n = Inr (T, off', p)"
    using "4.prems"(5) n off by (simp add: check_container_def)
  note step = own_container_step[OF wf "4.prems"(2) st n chk "4.prems"(6)]
  from fresh_container[OF "4.prems"(2) st n step(1), of cv]
  obtain cv' where cv': "extract_container H cfo pfo first cv n = (tot + n, 0, cv')"
    "is_hex_string cv'" by blast
  have fv: "field_value (Array n h) first cv' 0 n = Inr (VStr cv', cv')" by simp
  from apply_handler_returns[OF hr, of "VStr cv'"]
  obtain v' where v': "apply_handler (handler_of (Array n h)) (VStr cv') = Inr v'" by auto
  from "4.IH"[OF wf "4.prems"(2) step(2) _ chk "4.prems"(6), of cv']
  obtain r where "parse_struct_loop rest H (tot + n) (0 + n) (0 + n = n) cv' = Inr r"
    by auto
  from parse_struct_loop_Cons_Inr[OF _ cv'(1) fv v' this, of name]
  show ?case using off by simp
next
  case (5 name n h rest off prev)
  from "5.prems"(1) have off: "off = 0" and n: "0 \<le> n" "n mod 8 = 0"
    and hr: "handler_returns h (range VStr)"
    and wf: "well_formed_loop rest 0 n" by auto
  note st = "5.prems"(3)[unfolded off]
  have chk: "check_struct_loop rest (tot + n) 0 n = Inr (T, off', p)"
    using "5.prems"(5) n off by (simp add: check_container_def)
  note step = own_container_step[OF wf "5.prems"(2) st n chk "5.prems"(6)]
  from fresh_container[OF "5.prems"(2) st n step(1), of cv]
  obtain cv' where cv': "extract_container H cfo pfo first cv n = (tot + n, 0, cv')"
    "is_hex_string cv'" by blast
  from hex_string_to_char_string_Inr[OF cv'(2)]
  obtain str where "hex_string_to_char_string cv' = Inr str" by auto
  then have fv: "field_value (String n h) first cv' 0 n = Inr (VStr str, cv')" by simp
  from apply_handler_returns[OF hr, of "VStr str"]
  obtain v' where v': "apply_handler (handler_of (String n h)) (VStr str) = Inr v'" by auto
  from "5.IH"[OF wf "5.prems"(2) step(2) _ chk "5.prems"(6), of cv']
  obtain r where "parse_struct_loop rest H (tot + n) (0 + n) (0 + n = n) cv' = Inr r"
    by auto
  from parse_struct_loop_Cons_Inr[OF _ cv'(1) fv v' this, of name]
  show ?case using off by simp
next
  case (6 name sub h rest off prev)
  from "6.prems"(1) have off: "off = 0" and wfs: "well_formed_loop sub 0 0"
    and hr: "handler_returns h (range VDict)"
    and wf: "well_formed_loop rest 0 0" by auto
  note st = "6.prems"(3)[unfolded off]
  from well_formed_check[OF wfs, of 0] obtain l p0 where
    l: "check_struct_loop sub 0 0 0 = Inr (l, 0, p0)" "l mod 8 = 0" "0 \<le> l" by auto
  then have cs: "check_struct sub = Inr l" by simp
  have chk: "check_struct_loop rest (tot + l) 0 l = Inr (T, off', p)"
    using "6.prems"(5) l cs off by (simp add: check_container_def del: check_struct.simps)
  note step = own_container_step[OF wf "6.prems"(2) st l(3,2) chk "6.prems"(6)]
  from step(3) obtain p' where chk0: "check_struct_loop rest (tot + l) 0 0 = Inr (T, off', p')"
    by blast
  from fresh_container[OF "6.prems"(2) st l(3,2) step(1), of cv]
  obtain cv' where cv': "extract_container H cfo pfo first cv l = (tot + l, 0, cv')"
    "is_hex_string cv'" "4 * int (length cv') = l" "even (length cv')" by blast
  have "state_ok 0 0 0 0 0 True" by (simp add: state_ok_def)
  from "6.IH"(1)[OF wfs cv'(2) this _ l(1), of "[]"] cv'(3)
  obtain r' where "parse_struct_loop sub cv' 0 0 True [] = Inr r'" by auto
  then have "parse_struct_from_hex sub cv' = Inr r'"
    using cs cv'(3,4) by (auto simp del: check_struct.simps)
  then have fv: "field_value (Struct sub h) first cv' 0 l = Inr (VDict r', cv')"
    by (simp del: parse_struct_from_hex.simps)
  from apply_handler_returns[OF hr, of "VDict r'"]
  obtain v' where v': "apply_handler (handler_of (Struct sub h)) (VDict r') = Inr v'" by auto
  from "6.IH"(2)[OF wf "6.prems"(2) step(2) _ chk0 "6.prems"(6), of cv']
  obtain r where "parse_struct_loop rest H (tot + l) (0 + l) (0 + l = l) cv' = Inr r"
    by auto
  from parse_struct_loop_Cons_Inr[OF _ cv'(1) fv v' this, of name]
  show ?case using off cs by (simp del: check_struct.simps)
next
  case (7 name rest off prev)
  then show ?case by simp
next
  case (3 name w c h rest off prev)
  let ?off' = "if off + w = c then 0 else off + w"
  let ?tot' = "if off + w = c then tot + c else tot"
  from "3.prems"(1) have wf: "well_formed_loop rest ?off' c"
    and w: "0 < w" "c mod 8 = 0" "off + w \<le> c" "off = 0 \<or> prev = c"
    and hr: "handler_returns h (range VInt)"
    by auto
  note valid = state_ok_valid[OF "3.prems"(3)]
  note tt = state_ok_tot[OF "3.prems"(3)]
  have c0: "0 \<le> c" using valid w by auto
  have cc: "check_container tot off prev (off = 0) w c = Inr (?tot', ?off', c)"
    using w valid by (auto simp: check_container_def)
  have chk: "check_struct_loop rest ?tot' ?off' c = Inr (T, off', p)"
    using "3.prems"(5) cc by simp
  have v': "?off' = 0 \<or> (0 < ?off' \<and> ?off' < c \<and> c mod 8 = 0)"
    using w valid by auto
  have t': "0 \<le> ?tot'" "?tot' mod 8 = 0"
    using tt w c0 by (auto intro: mod8_add)
  have bound: "(if ?off' = 0 then ?tot' else ?tot' + c) \<le> T"
    by (rule check_total_bound(1)[OF wf v' t' chk])
  have w0: "0 \<le> w" using w by simp
  show ?case
  proof (cases "off = 0")
    case True
    note st = "3.prems"(3)[unfolded True]
    have "tot + c \<le> T" using bound True w(1) by (auto split: if_splits)
    then have enough: "tot + c \<le> 4 * int (length H)" using "3.prems"(6) by simp
    from fresh_container[OF "3.prems"(2) st c0 w(2) enough, of cv]
    obtain cv' where cv': "extract_container H cfo pfo first cv c = (tot + c, 0, cv')"
      "is_hex_string cv'" "4 * int (length cv') = c" "even (length cv')" by blast
    have ne: "cv' \<noteq> []" using cv'(3) w True by auto
    have first: "first" using st by (simp add: state_ok_def)
    from numeric_first[OF cv'(2,4) ne w0, of "Packed w c h" _ w c h]
    obtain n where fv: "field_value (Packed w c h) first cv' 0 w
                          = Inr (VInt n, convert_endianess cv')"
      using first by auto
    from apply_handler_returns[OF hr, of "VInt n"]
    obtain v' where hv: "apply_handler (handler_of (Packed w c h)) (VInt n) = Inr v'" by auto
    have st': "state_ok ?tot' ?off' c (tot + c) (0 + w) (0 + w = c)"
      using t' w True by (auto simp: state_ok_def)
    have cvok: "?off' \<noteq> 0 \<longrightarrow> is_hex_string (convert_endianess cv') \<and> convert_endianess cv' \<noteq> []"
      using is_hex_string_convert_endianess[OF cv'(2,4)] convert_endianess_nonempty[OF cv'(4) ne]
      by simp
    from "3.IH"[OF wf "3.prems"(2) st' cvok chk "3.prems"(6)]
    obtain r where "parse_struct_loop rest H (tot + c) (0 + w) (0 + w = c) (convert_endianess cv') = Inr r"
      by auto
    from parse_struct_loop_Cons_Inr[OF _ cv'(1) fv hv this, of name]
    show ?thesis by simp
  next
    case False
    from "3.prems"(3) False have st: "\<not> first" "pfo = off" "0 < off" "off < prev"
      "cfo = tot + prev" by (auto simp: state_ok_def)
    from w False have pc: "prev = c" by simp
    from "3.prems"(4) False have cvh: "is_hex_string cv" "cv \<noteq> []" by auto
    have ec: "extract_container H cfo pfo first cv c = (cfo, pfo, cv)"
      using st(1) by (simp add: extract_container_not_first)
    from numeric_next[OF cvh w0, of pfo w c h] st
    obtain n where fv: "field_value (Packed w c h) first cv pfo w = Inr (VInt n, cv)"
      by auto
    from apply_handler_returns[OF hr, of "VInt n"]
    obtain v' where hv: "apply_handler (handler_of (Packed w c h)) (VInt n) = Inr v'" by auto
    have st': "state_ok ?tot' ?off' c cfo (pfo + w) (pfo + w = c)"
      using t' w st pc by (auto simp: state_ok_def)
    have cvok: "?off' \<noteq> 0 \<longrightarrow> is_hex_string cv \<and> cv \<noteq> []" using cvh by simp
    from "3.IH"[OF wf "3.prems"(2) st' cvok chk "3.prems"(6)]
    obtain r where "parse_struct_loop rest H cfo (pfo + w) (pfo + w = c) cv = Inr r"
      by auto
    from parse_struct_loop_Cons_Inr[OF _ ec fv hv this, of name]
    show ?thesis by simp
  qed
qed


lemma well_formed_check_struct:
  assumes "well_formed fields"
  shows "\<exists>n. check_struct fields = Inr n \<and> 0 \<le> n \<and> n mod 8 = 0"
  using well_formed_check[of fields 0 0 0] assms by (auto simp: well_formed_def)

text \<open>
  C1. For a schema that keeps the layout invariants and a string \<open>H\<close> of hexadecimal
  digits, \<^verbatim>\<open>parse_struct_from_hex\<close> returns a result exactly when the length of
  \<open>H\<close> is even and \<^verbatim>\<open>check_struct\<close> returns 4 times that length. Otherwise it
  raises at line 37 (odd length) or at lines 41 to 43 (length mismatch: the
  \<^verbatim>\<open>AssertionError\<close>, or the \<^verbatim>\<open>OverflowError\<close> of its message for a schema of
  \<open>2 ^ 1027 - 2 ^ 973\<close> bits or more), in front of the loop that decodes the fields,
  and there is no result.
\<close>

theorem parse_struct_from_hex_succeeds_iff:
  assumes "well_formed S" "is_hex_string H"
  shows "((\<exists>r. parse_struct_from_hex S H = Inr r) \<longleftrightarrow>
            even (length H) \<and> check_struct S = Inr (4 * int (length H)))
       \<and> (odd (length H) \<longrightarrow> parse_struct_from_hex S H = Inl (AssertionError OddLength))
       \<and> (even (length H) \<and> check_struct S \<noteq> Inr (4 * int (length H)) \<longrightarrow>
            (\<exists>n. check_struct S = Inr n \<and>
                 parse_struct_from_hex S H = Inl (length_mismatch n)))"
proof -
  have 1: "even (length H) \<and> check_struct S = Inr (4 * int (length H))"
    if "\<exists>r. parse_struct_from_hex S H = Inr r"
    using that
    by (auto simp del: check_struct.simps simp: even_iff_mod_2_eq_zero
             split: if_splits sum.splits)
  have 2: "\<exists>r. parse_struct_from_hex S H = Inr r"
    if a: "even (length H) \<and> check_struct S = Inr (4 * int (length H))"
  proof -
    from a obtain off' p where
      chk: "check_struct_loop S 0 0 0 = Inr (4 * int (length H), off', p)"
      by (auto split: sum.splits)
    have st: "state_ok 0 0 0 0 0 True" by (simp add: state_ok_def)
    from parse_struct_loop_succeeds[OF assms(1)[unfolded well_formed_def] assms(2) st _ chk,
           of "[]"]
    obtain r where "parse_struct_loop S H 0 0 True [] = Inr r" by auto
    then show ?thesis
      using a by (auto simp del: check_struct.simps simp: even_iff_mod_2_eq_zero)
  qed
  have 3: "parse_struct_from_hex S H = Inl (AssertionError OddLength)" if "odd (length H)"
    using that by (simp del: check_struct.simps add: even_iff_mod_2_eq_zero)
  have 4: "\<exists>n. check_struct S = Inr n \<and> parse_struct_from_hex S H = Inl (length_mismatch n)"
    if a: "even (length H) \<and> check_struct S \<noteq> Inr (4 * int (length H))"
  proof -
    from well_formed_check_struct[OF assms(1)] obtain n where "check_struct S = Inr n" by auto
    then show ?thesis
      using a by (auto simp del: check_struct.simps simp: even_iff_mod_2_eq_zero)
  qed
  from 1 2 3 4 show ?thesis by blast
qed

lemma well_formed_test_fields: "well_formed test_fields"
  by (simp add: well_formed_def test_fields_def sub_struct_format_def handler_returns_def
        field2_handler_def field4_handler_def)

theorem parse_struct_from_hex_succeeds_iff_witness:
  "well_formed test_fields \<and> is_hex_string test_hex_string
   \<and> even (length test_hex_string)
   \<and> check_struct test_fields = Inr (4 * int (length test_hex_string))
   \<and> (\<exists>r. parse_struct_from_hex test_fields test_hex_string = Inr r)
   \<and> is_hex_string ''8fe''
   \<and> parse_struct_from_hex test_fields ''8fe'' = Inl (AssertionError OddLength)
   \<and> is_hex_string ''8fe3''
   \<and> parse_struct_from_hex test_fields ''8fe3'' = Inl (AssertionError LengthMismatch)
   \<and> well_formed [(''a'', Simple (2 ^ 1030))] \<and> is_hex_string ''ab''
   \<and> parse_struct_from_hex [(''a'', Simple (2 ^ 1030))] ''ab'' = Inl OverflowError"
proof -
  have h: "is_hex_string test_hex_string" "is_hex_string ''8fe''" "is_hex_string ''8fe3''"
          "is_hex_string ''ab''"
    by code_simp+
  have c: "check_struct test_fields = Inr 344" by code_simp
  have l: "length test_hex_string = 86" by (simp add: test_hex_string_def)
  have wf2: "well_formed [(''a'', Simple (2 ^ 1030))]" by (simp add: well_formed_def)
  have c2: "check_struct [(''a'', Simple (2 ^ 1030))] = Inr (2 ^ 1030)"
    by (simp add: check_container_def)
  have m: "length_mismatch 344 = AssertionError LengthMismatch"
          "length_mismatch (2 ^ 1030) = OverflowError"
    by (simp_all add: length_mismatch_def)
  have 1: "\<exists>r. parse_struct_from_hex test_fields test_hex_string = Inr r"
    using parse_struct_from_hex_succeeds_iff[OF well_formed_test_fields h(1)] c l by simp
  have 2: "parse_struct_from_hex test_fields ''8fe'' = Inl (AssertionError OddLength)"
    using parse_struct_from_hex_succeeds_iff[OF well_formed_test_fields h(2)] by simp
  have 3: "parse_struct_from_hex test_fields ''8fe3'' = Inl (AssertionError LengthMismatch)"
    using parse_struct_from_hex_succeeds_iff[OF well_formed_test_fields h(3)] c m(1)
    by (auto simp del: parse_struct_from_hex.simps check_struct.simps)
  have 4: "parse_struct_from_hex [(''a'', Simple (2 ^ 1030))] ''ab'' = Inl OverflowError"
    using parse_struct_from_hex_succeeds_iff[OF wf2 h(4)] c2 m(2)
    by (auto simp del: parse_struct_from_hex.simps check_struct.simps)
  show ?thesis
    using well_formed_test_fields h c l wf2 1 2 3 4
    by (simp del: parse_struct_from_hex.simps check_struct.simps)
qed


section \<open>Nested structures\<close>

lemma extract_container_offsets:
  "extract_container hs cfo pfo first cv cfl = (cfo', pfo', cv') \<Longrightarrow>
   cfo' = (if first then cfo + cfl else cfo) \<and> pfo' = (if first then 0 else pfo)"
  by (auto simp: extract_container_def Let_def split: if_splits)

text \<open>One field of a schema that keeps the invariants: both loops move to states that agree.\<close>

lemma well_formed_step:
  assumes "well_formed_loop ((n0, f0) # rest) off prev"
      and "state_ok tot off prev cfo pfo first"
  obtains fl cur tot' off2 where
    "check_lengths f0 off = Inr (fl, cur)" "field_lengths f0 = Inr (cur, fl)"
    "check_container tot off prev (off = 0) fl cur = Inr (tot', off2, cur)"
    "well_formed_loop rest off2 cur"
    "state_ok tot' off2 cur (if first then cfo + cur else cfo)
        ((if first then 0 else pfo) + fl) ((if first then 0 else pfo) + fl = cur)"
proof (cases f0)
  case (Simple w)
  with assms(1) have off: "off = 0" and w: "0 < w" "w mod 8 = 0"
    and wf: "well_formed_loop rest 0 w" by auto
  from assms(2) off have st: "first" "cfo = tot" "0 \<le> tot" "tot mod 8 = 0"
    by (auto simp: state_ok_def)
  show ?thesis
  proof (rule that[of w w "tot + w" 0])
    show "check_container tot off prev (off = 0) w w = Inr (tot + w, 0, w)"
      using w off by (simp add: check_container_def)
    show "state_ok (tot + w) 0 w (if first then cfo + w else cfo)
            ((if first then 0 else pfo) + w) ((if first then 0 else pfo) + w = w)"
      using st w by (simp add: state_ok_def mod8_add)
  qed (use Simple off wf in auto)
next
  case (Packed w c h)
  let ?off' = "if off + w = c then 0 else off + w"
  let ?tot' = "if off + w = c then tot + c else tot"
  from Packed assms(1) have wf: "well_formed_loop rest ?off' c"
    and w: "0 < w" "c mod 8 = 0" "off + w \<le> c" "off = 0 \<or> prev = c"
    by auto
  note valid = state_ok_valid[OF assms(2)]
  note tt = state_ok_tot[OF assms(2)]
  have c0: "0 \<le> c" using valid w by auto
  show ?thesis
  proof (rule that[of w c ?tot' ?off'])
    show "check_container tot off prev (off = 0) w c = Inr (?tot', ?off', c)"
      using w valid by (auto simp: check_container_def)
    show "state_ok ?tot' ?off' c (if first then cfo + c else cfo)
            ((if first then 0 else pfo) + w) ((if first then 0 else pfo) + w = c)"
      using assms(2) w tt c0 by (auto simp: state_ok_def mod8_add split: if_splits)
  qed (use Packed wf in auto)
next
  case (Array n h)
  with assms(1) have off: "off = 0" and w: "0 \<le> n" "n mod 8 = 0"
    and wf: "well_formed_loop rest 0 n" by auto
  from assms(2) off have st: "first" "cfo = tot" "0 \<le> tot" "tot mod 8 = 0"
    by (auto simp: state_ok_def)
  show ?thesis
  proof (rule that[of n n "tot + n" 0])
    show "check_container tot off prev (off = 0) n n = Inr (tot + n, 0, n)"
      using w off by (simp add: check_container_def)
    show "state_ok (tot + n) 0 n (if first then cfo + n else cfo)
            ((if first then 0 else pfo) + n) ((if first then 0 else pfo) + n = n)"
      using st w by (simp add: state_ok_def mod8_add)
  qed (use Array off wf in auto)
next
  case (String n h)
  with assms(1) have off: "off = 0" and w: "0 \<le> n" "n mod 8 = 0"
    and wf: "well_formed_loop rest 0 n" by auto
  from assms(2) off have st: "first" "cfo = tot" "0 \<le> tot" "tot mod 8 = 0"
    by (auto simp: state_ok_def)
  show ?thesis
  proof (rule that[of n n "tot + n" 0])
    show "check_container tot off prev (off = 0) n n = Inr (tot + n, 0, n)"
      using w off by (simp add: check_container_def)
    show "state_ok (tot + n) 0 n (if first then cfo + n else cfo)
            ((if first then 0 else pfo) + n) ((if first then 0 else pfo) + n = n)"
      using st w by (simp add: state_ok_def mod8_add)
  qed (use String off wf in auto)
next
  case (Struct sub h)
  with assms(1) have off: "off = 0" and wfs: "well_formed_loop sub 0 0"
    and wf: "well_formed_loop rest 0 0" by auto
  from assms(2) off have st: "first" "cfo = tot" "0 \<le> tot" "tot mod 8 = 0"
    by (auto simp: state_ok_def)
  from well_formed_check[OF wfs, of 0] obtain l p0 where
    l: "check_struct_loop sub 0 0 0 = Inr (l, 0, p0)" "l mod 8 = 0" "0 \<le> l" by auto
  then have cs: "check_struct sub = Inr l" by simp
  show ?thesis
  proof (rule that[of l l "tot + l" 0])
    show "check_container tot off prev (off = 0) l l = Inr (tot + l, 0, l)"
      using l off by (simp add: check_container_def)
    show "state_ok (tot + l) 0 l (if first then cfo + l else cfo)
            ((if first then 0 else pfo) + l) ((if first then 0 else pfo) + l = l)"
      using st l by (simp add: state_ok_def mod8_add)
    show "well_formed_loop rest 0 l" using wf well_formed_loop_prev by blast
  qed (use Struct cs in \<open>auto simp del: check_struct.simps\<close>)
next
  case Short
  with assms(1) show ?thesis by simp
qed

lemma nested_struct_loop:
  assumes "well_formed_loop (pre @ (name, Struct N h) # post) off prev"
      and "state_ok tot off prev cfo pfo first"
      and "name \<notin> fst ` set pre"
      and "parse_struct_loop (pre @ (name, Struct N h) # post) P cfo pfo first cv = Inr r"
  shows "\<exists>k p l r' v. check_struct_loop pre tot off prev = Inr (k, 0, p)
           \<and> check_struct N = Inr l
           \<and> parse_struct_from_hex N (py_slice P (k div 4) (k div 4 + l div 4)) = Inr r'
           \<and> apply_handler h (VDict r') = Inr v \<and> map_of r name = Some v"
  using assms
proof (induction pre arbitrary: tot off prev cfo pfo first cv r)
  case Nil
  from Nil.prems(1) have off: "off = 0" and wfN: "well_formed_loop N 0 0" by auto
  from Nil.prems(2) off have st: "first" "cfo = tot" "0 \<le> tot" "tot mod 8 = 0"
    by (auto simp: state_ok_def)
  from well_formed_check[OF wfN, of 0] obtain l p0 where
    l: "check_struct_loop N 0 0 0 = Inr (l, 0, p0)" "l mod 8 = 0" "0 \<le> l" by auto
  then have cs: "check_struct N = Inr l" by simp
  have ec: "extract_container P cfo pfo first cv l
              = (tot + l, 0, py_slice P (tot div 4) (tot div 4 + l div 4))"
    using extract_container_first[OF st(3,4) l(3,2)] st(1,2) by simp
  from Nil.prems(4) cs ec obtain r' v rest where
    "parse_struct_from_hex N (py_slice P (tot div 4) (tot div 4 + l div 4)) = Inr r'"
    "apply_handler h (VDict r') = Inr v" "r = (name, v) # rest"
    by (auto simp del: check_struct.simps parse_struct_from_hex.simps split: sum.splits)
  then show ?case using cs off by (auto simp del: check_struct.simps parse_struct_from_hex.simps)
next
  case (Cons a pre)
  obtain n0 f0 where a: "a = (n0, f0)" by (cases a)
  from Cons.prems(3) a have ne: "n0 \<noteq> name" and notin: "name \<notin> fst ` set pre" by auto
  from Cons.prems(1) a have wf: "well_formed_loop ((n0, f0) # (pre @ (name, Struct N h) # post)) off prev"
    by simp
  from well_formed_step[OF wf Cons.prems(2)] obtain fl cur tot' off2 where
    step: "check_lengths f0 off = Inr (fl, cur)" "field_lengths f0 = Inr (cur, fl)"
      "check_container tot off prev (off = 0) fl cur = Inr (tot', off2, cur)"
      "well_formed_loop (pre @ (name, Struct N h) # post) off2 cur"
      "state_ok tot' off2 cur (if first then cfo + cur else cfo)
          ((if first then 0 else pfo) + fl) ((if first then 0 else pfo) + fl = cur)"
    by blast
  from Cons.prems(4) step(2) obtain cfo' pfo' cv' v cv'' v' r1 where
    p: "extract_container P cfo pfo first cv cur = (cfo', pfo', cv')"
       "parse_struct_loop (pre @ (name, Struct N h) # post) P cfo' (pfo' + fl) (pfo' + fl = cur) cv''
          = Inr r1"
       "r = (n0, v') # r1"
    unfolding a by (auto split: sum.splits prod.splits)
  from extract_container_offsets[OF p(1)] step(5)
  have st': "state_ok tot' off2 cur cfo' (pfo' + fl) (pfo' + fl = cur)" by simp
  from Cons.IH[OF step(4) st' notin p(2)] obtain k p0 l r' v where
    "check_struct_loop pre tot' off2 cur = Inr (k, 0, p0)" "check_struct N = Inr l"
    "parse_struct_from_hex N (py_slice P (k div 4) (k div 4 + l div 4)) = Inr r'"
    "apply_handler h (VDict r') = Inr v" "map_of r1 name = Some v"
    by blast
  then show ?case using step(1,3) p(3) ne unfolding a
    by (auto simp del: check_struct.simps parse_struct_from_hex.simps check_lengths.simps)
qed

text \<open>
  C5, as the code has it. In a schema that keeps the layout invariants, the value
  stored for a structure field with nested schema \<open>N\<close> is the result of decoding, on
  its own, the part of the payload that starts at the validated length \<open>k\<close> of the
  fields in front of it and has the validated length \<open>l\<close> of \<open>N\<close>, passed through
  the field's handler when its tuple has one; without a handler it is that result.
\<close>

theorem nested_struct_equivalence:
  assumes "well_formed S" "distinct (map fst S)" "is_hex_string P"
      and "S = pre @ (name, Struct N h) # post"
      and "parse_struct_from_hex S P = Inr r"
  shows "\<exists>k l r' v. check_struct pre = Inr k \<and> check_struct N = Inr l
           \<and> parse_struct_from_hex N (py_slice P (k div 4) (k div 4 + l div 4)) = Inr r'
           \<and> apply_handler h (VDict r') = Inr v \<and> map_of r name = Some v
           \<and> (h = None \<longrightarrow> v = VDict r')"
proof -
  from assms(5) have loop: "parse_struct_loop (pre @ (name, Struct N h) # post) P 0 0 True [] = Inr r"
    unfolding assms(4) by (auto simp del: check_struct.simps split: if_splits sum.splits)
  have st: "state_ok 0 0 0 0 0 True" by (simp add: state_ok_def)
  from assms(2) have notin: "name \<notin> fst ` set pre" unfolding assms(4) by auto
  from nested_struct_loop[OF assms(1)[unfolded well_formed_def assms(4)] st notin loop]
  obtain k p l r' v where
    *: "check_struct_loop pre 0 0 0 = Inr (k, 0, p)" "check_struct N = Inr l"
       "parse_struct_from_hex N (py_slice P (k div 4) (k div 4 + l div 4)) = Inr r'"
       "apply_handler h (VDict r') = Inr v" "map_of r name = Some v"
    by blast
  from *(1) have "check_struct pre = Inr k" by simp
  moreover from *(4) have "h = None \<longrightarrow> v = VDict r'" by (auto simp: apply_handler_def)
  ultimately show ?thesis using *(2-5) by blast
qed

theorem nested_struct_equivalence_witness:
  "well_formed [(''a'', Simple 8), (''t'', Struct [(''x'', Simple 16)] None), (''b'', Simple 8)]
   \<and> distinct (map fst [(''a'', Simple 8), (''t'', Struct [(''x'', Simple 16)] None), (''b'', Simple 8)])
   \<and> is_hex_string ''01f13502''
   \<and> parse_struct_from_hex
        [(''a'', Simple 8), (''t'', Struct [(''x'', Simple 16)] None), (''b'', Simple 8)] ''01f13502''
      = Inr [(''a'', VInt 1), (''t'', VDict [(''x'', VInt 0x35f1)]), (''b'', VInt 2)]
   \<and> (\<exists>k l r' v. check_struct [(''a'', Simple 8)] = Inr k \<and> check_struct [(''x'', Simple 16)] = Inr l
         \<and> parse_struct_from_hex [(''x'', Simple 16)] (py_slice ''01f13502'' (k div 4) (k div 4 + l div 4))
             = Inr r'
         \<and> apply_handler None (VDict r') = Inr v
         \<and> map_of [(''a'', VInt 1), (''t'', VDict [(''x'', VInt 0x35f1)]), (''b'', VInt 2)] ''t''
             = Some v
         \<and> (None = (None :: handler option) \<longrightarrow> v = VDict r'))"
proof -
  have wf: "well_formed [(''a'', Simple 8), (''t'', Struct [(''x'', Simple 16)] None), (''b'', Simple 8)]"
    by (simp add: well_formed_def handler_returns_def)
  have d: "distinct (map fst [(''a'', Simple 8), (''t'', Struct [(''x'', Simple 16)] None), (''b'', Simple 8)])"
    by simp
  have h: "is_hex_string ''01f13502''" by code_simp
  have s: "[(''a'', Simple 8), (''t'', Struct [(''x'', Simple 16)] None), (''b'', Simple 8)]
             = [(''a'', Simple 8)] @ (''t'', Struct [(''x'', Simple 16)] None) # [(''b'', Simple 8)]"
    by simp
  have p: "parse_struct_from_hex
             [(''a'', Simple 8), (''t'', Struct [(''x'', Simple 16)] None), (''b'', Simple 8)] ''01f13502''
           = Inr [(''a'', VInt 1), (''t'', VDict [(''x'', VInt 0x35f1)]), (''b'', VInt 2)]"
    by code_simp
  from nested_struct_equivalence[OF wf d h s p] wf d h p show ?thesis by blast
qed

text \<open>
  Against C5 as stated: with a handler on the structure field the stored value is
  not the result of decoding the nested schema on its own.
\<close>

theorem nested_struct_handler_counterexample:
  "well_formed [(''t'', Struct [(''x'', Simple 8)] (Some wrap_handler))]
   \<and> parse_struct_from_hex [(''t'', Struct [(''x'', Simple 8)] (Some wrap_handler))] ''ff''
       = Inr [(''t'', VDict [(''wrapped'', VDict [(''x'', VInt 0xff)])])]
   \<and> check_struct [] = Inr 0 \<and> check_struct [(''x'', Simple 8)] = Inr 8
   \<and> parse_struct_from_hex [(''x'', Simple 8)] (py_slice ''ff'' (0 div 4) (0 div 4 + 8 div 4))
       = Inr [(''x'', VInt 0xff)]
   \<and> VDict [(''wrapped'', VDict [(''x'', VInt 0xff)])] \<noteq> VDict [(''x'', VInt 0xff)]"
proof -
  have "well_formed [(''t'', Struct [(''x'', Simple 8)] (Some wrap_handler))]"
    by (simp add: well_formed_def handler_returns_def wrap_handler_def)
  moreover have "parse_struct_from_hex [(''t'', Struct [(''x'', Simple 8)] (Some wrap_handler))] ''ff''
       = Inr [(''t'', VDict [(''wrapped'', VDict [(''x'', VInt 0xff)])])]"
    by code_simp
  moreover have "check_struct [] = Inr 0" "check_struct [(''x'', Simple 8)] = Inr 8"
    by code_simp+
  moreover have "parse_struct_from_hex [(''x'', Simple 8)] (py_slice ''ff'' (0 div 4) (0 div 4 + 8 div 4))
       = Inr [(''x'', VInt 0xff)]"
    by code_simp
  ultimately show ?thesis by simp
qed


section \<open>Packed fields of one container\<close>

lemma extract_value_from_hex_bits:
  assumes "extract_value_from_hex cv s w = Inr x"
  shows "\<exists>V. int16 cv = Inr V \<and> x = bits V s w"
proof -
  from assms obtain V where V: "int16 cv = Inr V" and s: "0 \<le> s" "0 \<le> w"
    and x: "x = drop_bit (nat s) V AND (2 ^ nat w - 1)"
    by (auto simp: extract_value_from_hex_def split: sum.splits if_splits)
  have "drop_bit (nat s) V AND (2 ^ nat w - 1) = take_bit (nat w) (drop_bit (nat s) V)"
    by (simp only: take_bit_eq_mask mask_eq_exp_minus_1)
  also have "\<dots> = (V div 2 ^ nat s) mod 2 ^ nat w"
    by (simp only: take_bit_eq_mod drop_bit_eq_div)
  finally show ?thesis using V x by (auto simp: bits_def)
qed

lemma start_bit_Cons:
  "start_bit ((n, w, h) # run) (Suc i) = w + start_bit run i"
  "start_bit run 0 = 0"
  by (simp_all add: start_bit_def)

lemma start_bit_pos:
  "\<forall>(n, w, h)\<in>set run. 0 < w \<Longrightarrow> run \<noteq> [] \<Longrightarrow> 0 < start_bit run (length run)"
proof (induction run)
  case Nil
  then show ?case by simp
next
  case (Cons a run)
  obtain n w h where a: "a = (n, w, h)" by (cases a)
  from Cons.prems(1) have w: "0 < w" and pos: "\<forall>(n, w, h)\<in>set run. 0 < w"
    unfolding a by simp_all
  have "0 \<le> start_bit run (length run)"
  proof (cases "run = []")
    case True then show ?thesis by (simp add: start_bit_def)
  next
    case False from Cons.IH[OF pos False] show ?thesis by simp
  qed
  then show ?case using w unfolding a by (simp add: start_bit_Cons)
qed

lemma packed_run_Cons: "packed_run c ((n, w, h) # run) = (n, Packed w c h) # packed_run c run"
  by (simp add: packed_run_def)

lemma packed_run_next:
  assumes "parse_struct_loop (packed_run c run @ rest) P cfo pfo False cv = Inr r"
      and "\<forall>(n, w, h)\<in>set run. 0 < w"
      and "pfo + start_bit run (length run) \<le> c"
  shows "\<forall>i<length run. case run ! i of (n, w, h) \<Rightarrow>
           fst (r ! i) = n \<and>
           (\<exists>x. extract_value_from_hex cv (pfo + start_bit run i) w = Inr x
                \<and> apply_handler h (VInt x) = Inr (snd (r ! i)))"
  using assms
proof (induction run arbitrary: pfo r)
  case Nil
  show ?case by simp
next
  case (Cons a run)
  obtain n w h where a: "a = (n, w, h)" by (cases a)
  from Cons.prems(1) obtain x v' r1 where
    x: "extract_value_from_hex cv pfo w = Inr x" "apply_handler h (VInt x) = Inr v'"
    and rest: "parse_struct_loop (packed_run c run @ rest) P cfo (pfo + w) (pfo + w = c) cv = Inr r1"
    and r: "r = (n, v') # r1"
    unfolding a packed_run_Cons
    by (auto simp: extract_container_not_first Let_def split: sum.splits prod.splits)
  show ?case
  proof (intro allI impI)
    fix i assume i: "i < length (a # run)"
    show "case (a # run) ! i of (n, w, h) \<Rightarrow>
           fst (r ! i) = n \<and>
           (\<exists>x. extract_value_from_hex cv (pfo + start_bit (a # run) i) w = Inr x
                \<and> apply_handler h (VInt x) = Inr (snd (r ! i)))"
    proof (cases i)
      case 0
      then show ?thesis using x r a by (simp add: start_bit_Cons)
    next
      case (Suc j)
      with i have j: "j < length run" by simp
      then have ne: "run \<noteq> []" by auto
      from Cons.prems(2) have pos: "\<forall>(n, w, h)\<in>set run. 0 < w" by simp
      from Cons.prems(3) have le: "pfo + w + start_bit run (length run) \<le> c"
        unfolding a by (simp add: start_bit_Cons)
      with start_bit_pos[OF pos ne] have "pfo + w \<noteq> c" by simp
      with rest have rest': "parse_struct_loop (packed_run c run @ rest) P cfo (pfo + w) False cv = Inr r1"
        by simp
      have IHj: "case run ! j of (n, w', h) \<Rightarrow>
           fst (r1 ! j) = n \<and>
           (\<exists>x. extract_value_from_hex cv (pfo + w + start_bit run j) w' = Inr x
                \<and> apply_handler h (VInt x) = Inr (snd (r1 ! j)))"
        by (rule Cons.IH[OF rest' pos le, rule_format, OF j])
      have eq: "pfo + start_bit ((n, w, h) # run) (Suc j) = pfo + w + start_bit run j"
        by (simp add: start_bit_Cons)
      have nth: "((n, w, h) # run) ! Suc j = run ! j" "((n, v') # r1) ! Suc j = r1 ! j"
        by simp_all
      show ?thesis unfolding Suc a r nth eq by (rule IHj)
    qed
  qed
qed

lemma parse_struct_loop_prefix:
  assumes "well_formed_loop (pre @ rest) off prev"
      and "state_ok tot off prev cfo pfo first"
      and "parse_struct_loop (pre @ rest) P cfo pfo first cv = Inr r"
  shows "\<exists>tot' off' prev' cfo' pfo' first' cv' r1 r2.
           check_struct_loop pre tot off prev = Inr (tot', off', prev')
           \<and> well_formed_loop rest off' prev'
           \<and> state_ok tot' off' prev' cfo' pfo' first'
           \<and> parse_struct_loop rest P cfo' pfo' first' cv' = Inr r2
           \<and> r = r1 @ r2 \<and> length r1 = length pre"
  using assms
proof (induction pre arbitrary: tot off prev cfo pfo first cv r)
  case Nil
  have "check_struct_loop [] tot off prev = Inr (tot, off, prev)" by simp
  moreover have "r = [] @ r" "length ([] :: (string \<times> pyval) list) = length ([] :: schema)"
    by simp_all
  ultimately show ?case
    apply (insert Nil.prems)
    apply (rule exI[of _ tot], rule exI[of _ off], rule exI[of _ prev], rule exI[of _ cfo],
           rule exI[of _ pfo], rule exI[of _ first], rule exI[of _ cv], rule exI[of _ "[]"],
           rule exI[of _ r])
    apply simp
    done
next
  case (Cons a pre)
  obtain n0 f0 where a: "a = (n0, f0)" by (cases a)
  from Cons.prems(1) a have wf: "well_formed_loop ((n0, f0) # (pre @ rest)) off prev" by simp
  from well_formed_step[OF wf Cons.prems(2)] obtain fl cur tot1 off1 where
    step: "check_lengths f0 off = Inr (fl, cur)" "field_lengths f0 = Inr (cur, fl)"
      "check_container tot off prev (off = 0) fl cur = Inr (tot1, off1, cur)"
      "well_formed_loop (pre @ rest) off1 cur"
      "state_ok tot1 off1 cur (if first then cfo + cur else cfo)
          ((if first then 0 else pfo) + fl) ((if first then 0 else pfo) + fl = cur)"
    by blast
  from Cons.prems(3) step(2) obtain cfo1 pfo1 cv1 v cv2 v' r' where
    p: "extract_container P cfo pfo first cv cur = (cfo1, pfo1, cv1)"
       "parse_struct_loop (pre @ rest) P cfo1 (pfo1 + fl) (pfo1 + fl = cur) cv2 = Inr r'"
       "r = (n0, v') # r'"
    unfolding a by (auto split: sum.splits prod.splits)
  from extract_container_offsets[OF p(1)] step(5)
  have st': "state_ok tot1 off1 cur cfo1 (pfo1 + fl) (pfo1 + fl = cur)" by simp
  from Cons.IH[OF step(4) st' p(2)] obtain tot' off' prev' cfo' pfo' first' cv' r1 r2 where
    ih: "check_struct_loop pre tot1 off1 cur = Inr (tot', off', prev')"
        "well_formed_loop rest off' prev'" "state_ok tot' off' prev' cfo' pfo' first'"
        "parse_struct_loop rest P cfo' pfo' first' cv' = Inr r2"
        "r' = r1 @ r2" "length r1 = length pre"
    by blast
  have chk: "check_struct_loop (a # pre) tot off prev = Inr (tot', off', prev')"
    unfolding a using step(1,3) ih(1) by (simp del: check_lengths.simps)
  have "r = ((n0, v') # r1) @ r2" "length ((n0, v') # r1) = length (a # pre)"
    using p(3) ih(5,6) by simp_all
  show ?case
    apply (insert chk ih(2,3,4) p(3) ih(5,6))
    apply (rule exI[of _ tot'], rule exI[of _ off'], rule exI[of _ prev'], rule exI[of _ cfo'],
           rule exI[of _ pfo'], rule exI[of _ first'], rule exI[of _ cv'],
           rule exI[of _ "(n0, v') # r1"], rule exI[of _ r2])
    apply simp
    done
qed

lemma well_formed_packed_run:
  "well_formed_loop (packed_run c run @ post) off prev \<Longrightarrow>
   (\<forall>(n, w, h)\<in>set run. 0 < w) \<and> (run \<noteq> [] \<longrightarrow> c mod 8 = 0)"
proof (induction run arbitrary: off prev)
  case Nil
  show ?case by simp
next
  case (Cons a run)
  obtain n w h where a: "a = (n, w, h)" by (cases a)
  from Cons.prems have "0 < w" "c mod 8 = 0"
    "well_formed_loop (packed_run c run @ post) (if off + w = c then 0 else off + w) c"
    unfolding a packed_run_Cons by auto
  with Cons.IH[OF this(3)] show ?case unfolding a by auto
qed

lemma packed_run_bits:
  assumes wf: "well_formed S" and wfp: "well_formed pre" and hex: "is_hex_string H"
      and S: "S = pre @ packed_run c run @ post"
      and fill: "start_bit run (length run) = c" and ne: "run \<noteq> []"
      and parse: "parse_struct_from_hex S H = Inr r"
  shows "\<exists>k V. check_struct pre = Inr k
           \<and> int16 (convert_endianess (py_slice H (k div 4) (k div 4 + c div 4))) = Inr V
           \<and> (\<forall>i<length run. case run ! i of (n, w, h) \<Rightarrow>
                 fst (r ! (length pre + i)) = n \<and>
                 apply_handler h (VInt (bits V (start_bit run i) w))
                   = Inr (snd (r ! (length pre + i))))"
proof -
  from parse have loop: "parse_struct_loop (pre @ packed_run c run @ post) H 0 0 True [] = Inr r"
    unfolding S by (auto simp del: check_struct.simps split: if_splits sum.splits)
  have st: "state_ok 0 0 0 0 0 True" by (simp add: state_ok_def)
  from parse_struct_loop_prefix[OF wf[unfolded well_formed_def S] st loop]
  obtain k off' prev' cfo' pfo' first' cv' r1 r2 where
    pre: "check_struct_loop pre 0 0 0 = Inr (k, off', prev')"
         "well_formed_loop (packed_run c run @ post) off' prev'"
         "state_ok k off' prev' cfo' pfo' first'"
         "parse_struct_loop (packed_run c run @ post) H cfo' pfo' first' cv' = Inr r2"
         "r = r1 @ r2" "length r1 = length pre"
    by blast
  from well_formed_check[OF wfp[unfolded well_formed_def], of 0] pre(1)
  have off': "off' = 0" by auto
  from pre(3) off' have k: "0 \<le> k" "k mod 8 = 0" "first'" "cfo' = k"
    by (auto simp: state_ok_def)
  from pre(1) have cs: "check_struct pre = Inr k" by simp
  from well_formed_packed_run[OF pre(2)] ne
  have pos: "\<forall>(n, w, h)\<in>set run. 0 < w" and c8: "c mod 8 = 0" by auto
  from start_bit_pos[OF pos ne] fill have c0: "0 \<le> c" by simp
  obtain n1 w1 h1 run' where run: "run = (n1, w1, h1) # run'"
    using ne by (cases run) auto
  let ?cv = "convert_endianess (py_slice H (k div 4) (k div 4 + c div 4))"
  from pre(4) obtain x v1 r3 where
    x: "extract_value_from_hex ?cv 0 w1 = Inr x" "apply_handler h1 (VInt x) = Inr v1"
    and rest: "parse_struct_loop (packed_run c run' @ post) H (k + c) (0 + w1) (0 + w1 = c) ?cv
                 = Inr r3"
    and r2: "r2 = (n1, v1) # r3"
    unfolding run packed_run_Cons using k(3,4) extract_container_first[OF k(1,2) c0 c8, of H pfo' cv']
    by (auto simp: Let_def split: sum.splits prod.splits)
  from extract_value_from_hex_bits[OF x(1)] obtain V where
    V: "int16 ?cv = Inr V" "x = bits V 0 w1" by blast
  have "case run ! i of (n, w, h) \<Rightarrow>
          fst (r ! (length pre + i)) = n \<and>
          apply_handler h (VInt (bits V (start_bit run i) w)) = Inr (snd (r ! (length pre + i)))"
    if i: "i < length run" for i
  proof (cases i)
    case 0
    then show ?thesis
      using x(2) V(2) pre(5,6) r2 unfolding run
      by (simp add: start_bit_Cons nth_append)
  next
    case (Suc j)
    with i have j: "j < length run'" unfolding run by simp
    then have ne': "run' \<noteq> []" by auto
    from pos have pos': "\<forall>(n, w, h)\<in>set run'. 0 < w" unfolding run by simp
    from fill have le: "w1 + start_bit run' (length run') \<le> c"
      unfolding run by (simp add: start_bit_Cons)
    with start_bit_pos[OF pos' ne'] have "w1 \<noteq> c" by simp
    with rest have rest': "parse_struct_loop (packed_run c run' @ post) H (k + c) w1 False ?cv = Inr r3"
      by simp
    have "case run' ! j of (n, w, h) \<Rightarrow>
           fst (r3 ! j) = n \<and>
           (\<exists>x. extract_value_from_hex ?cv (w1 + start_bit run' j) w = Inr x
                \<and> apply_handler h (VInt x) = Inr (snd (r3 ! j)))"
      by (rule packed_run_next[OF rest' pos' le, rule_format, OF j])
    then obtain n w h y where
      nth: "run' ! j = (n, w, h)" "fst (r3 ! j) = n"
        "extract_value_from_hex ?cv (w1 + start_bit run' j) w = Inr y"
        "apply_handler h (VInt y) = Inr (snd (r3 ! j))"
      by (cases "run' ! j") auto
    from extract_value_from_hex_bits[OF nth(3)] V(1)
    have y: "y = bits V (w1 + start_bit run' j) w" by auto
    have idx: "r ! (length pre + i) = r3 ! j"
      using pre(5,6) r2 Suc by (simp add: nth_append)
    show ?thesis
      unfolding run Suc using nth(1,2,4) y idx[unfolded Suc]
      by (simp add: start_bit_Cons)
  qed
  note all = this
  show ?thesis
  proof (intro exI conjI allI impI)
    show "check_struct pre = Inr k" by (rule cs)
    show "int16 ?cv = Inr V" by (rule V(1))
    fix i assume "i < length run"
    then show "case run ! i of (n, w, h) \<Rightarrow>
          fst (r ! (length pre + i)) = n \<and>
          apply_handler h (VInt (bits V (start_bit run i) w)) = Inr (snd (r ! (length pre + i)))"
      by (rule all)
  qed
qed

text \<open>
  C3. Fields declared earlier in a container occupy the least-significant bits. In a
  schema that keeps the layout invariants, take the packed fields \<open>run\<close> that fill one
  container of \<open>c\<close> bits, behind fields \<open>pre\<close> that end with a full container:
  with \<open>V\<close> the number that the container holds (its bytes reversed, read as
  hexadecimal), the value of the \<open>i\<close>-th field is the \<open>w\<close> bits of \<open>V\<close> that start at
  the sum of the widths of the fields declared before it in the container, passed
  through its handler when it has one. In particular an 8-bit container split into a
  5-bit field and then a 3-bit field, decoded from \<open>E3\<close>, gives 3 for the first
  field and 7 for the second.
\<close>

theorem lsb_first_packing:
  "(well_formed S \<and> well_formed pre \<and> is_hex_string H
      \<and> S = pre @ packed_run c run @ post
      \<and> start_bit run (length run) = c \<and> run \<noteq> []
      \<and> parse_struct_from_hex S H = Inr r
    \<longrightarrow> (\<exists>k V. check_struct pre = Inr k
           \<and> int16 (convert_endianess (py_slice H (k div 4) (k div 4 + c div 4))) = Inr V
           \<and> (\<forall>i<length run. case run ! i of (n, w, h) \<Rightarrow>
                 fst (r ! (length pre + i)) = n \<and>
                 apply_handler h (VInt (bits V (start_bit run i) w))
                   = Inr (snd (r ! (length pre + i))))))
   \<and> parse_struct_from_hex [(''field-1'', Packed 5 8 None), (''field-2'', Packed 3 8 None)] ''E3''
       = Inr [(''field-1'', VInt 0x03), (''field-2'', VInt 0x07)]"
proof (rule conjI)
  show "well_formed S \<and> well_formed pre \<and> is_hex_string H
      \<and> S = pre @ packed_run c run @ post
      \<and> start_bit run (length run) = c \<and> run \<noteq> []
      \<and> parse_struct_from_hex S H = Inr r
    \<longrightarrow> (\<exists>k V. check_struct pre = Inr k
           \<and> int16 (convert_endianess (py_slice H (k div 4) (k div 4 + c div 4))) = Inr V
           \<and> (\<forall>i<length run. case run ! i of (n, w, h) \<Rightarrow>
                 fst (r ! (length pre + i)) = n \<and>
                 apply_handler h (VInt (bits V (start_bit run i) w))
                   = Inr (snd (r ! (length pre + i)))))"
  proof (rule impI)
    assume h: "well_formed S \<and> well_formed pre \<and> is_hex_string H
      \<and> S = pre @ packed_run c run @ post
      \<and> start_bit run (length run) = c \<and> run \<noteq> []
      \<and> parse_struct_from_hex S H = Inr r"
    note 1 = h[THEN conjunct1]
    note 2 = h[THEN conjunct2, THEN conjunct1]
    note 3 = h[THEN conjunct2, THEN conjunct2, THEN conjunct1]
    note 4 = h[THEN conjunct2, THEN conjunct2, THEN conjunct2, THEN conjunct1]
    note 5 = h[THEN conjunct2, THEN conjunct2, THEN conjunct2, THEN conjunct2, THEN conjunct1]
    note 6 = h[THEN conjunct2, THEN conjunct2, THEN conjunct2, THEN conjunct2, THEN conjunct2,
               THEN conjunct1]
    note 7 = h[THEN conjunct2, THEN conjunct2, THEN conjunct2, THEN conjunct2, THEN conjunct2,
               THEN conjunct2]
    show "\<exists>k V. check_struct pre = Inr k
           \<and> int16 (convert_endianess (py_slice H (k div 4) (k div 4 + c div 4))) = Inr V
           \<and> (\<forall>i<length run. case run ! i of (n, w, h) \<Rightarrow>
                 fst (r ! (length pre + i)) = n \<and>
                 apply_handler h (VInt (bits V (start_bit run i) w))
                   = Inr (snd (r ! (length pre + i))))"
      by (rule packed_run_bits[OF 1 2 3 4 5 6 7])
  qed
next
  show "parse_struct_from_hex [(''field-1'', Packed 5 8 None), (''field-2'', Packed 3 8 None)] ''E3''
       = Inr [(''field-1'', VInt 0x03), (''field-2'', VInt 0x07)]"
    by code_simp
qed

theorem lsb_first_packing_witness:
  "well_formed ([(''p'', Simple 8)] @ packed_run 8 three_fields @ [(''q'', Simple 8)])
   \<and> well_formed [(''p'', Simple 8)] \<and> is_hex_string ''01E302''
   \<and> start_bit three_fields (length three_fields) = 8 \<and> three_fields \<noteq> []
   \<and> parse_struct_from_hex
        ([(''p'', Simple 8)] @ packed_run 8 three_fields @ [(''q'', Simple 8)]) ''01E302''
       = Inr [(''p'', VInt 1), (''a'', VInt 3), (''b'', VInt 0), (''c'', VInt 7), (''q'', VInt 2)]
   \<and> (\<exists>k V. check_struct [(''p'', Simple 8)] = Inr k
         \<and> int16 (convert_endianess (py_slice ''01E302'' (k div 4) (k div 4 + 8 div 4))) = Inr V
         \<and> (\<forall>i<length three_fields. case three_fields ! i of (n, w, h) \<Rightarrow>
               fst ([(''p'', VInt 1), (''a'', VInt 3), (''b'', VInt 0), (''c'', VInt 7),
                     (''q'', VInt 2)] ! (length [(''p'', Simple 8)] + i)) = n \<and>
               apply_handler h (VInt (bits V (start_bit three_fields i) w))
                 = Inr (snd ([(''p'', VInt 1), (''a'', VInt 3), (''b'', VInt 0), (''c'', VInt 7),
                              (''q'', VInt 2)] ! (length [(''p'', Simple 8)] + i)))))
   \<and> bits 0xE3 0 2 = 3 \<and> bits 0xE3 2 3 = 0 \<and> bits 0xE3 5 3 = 7"
proof -
  have wf: "well_formed ([(''p'', Simple 8)] @ packed_run 8 three_fields @ [(''q'', Simple 8)])"
    by (simp add: well_formed_def packed_run_def three_fields_def handler_returns_def)
  have wfp: "well_formed [(''p'', Simple 8)]" by (simp add: well_formed_def)
  have hx: "is_hex_string ''01E302''" by code_simp
  have fill: "start_bit three_fields (length three_fields) = 8"
    by (simp add: start_bit_def three_fields_def)
  have ne: "three_fields \<noteq> []" by (simp add: three_fields_def)
  have prs: "parse_struct_from_hex
        ([(''p'', Simple 8)] @ packed_run 8 three_fields @ [(''q'', Simple 8)]) ''01E302''
       = Inr [(''p'', VInt 1), (''a'', VInt 3), (''b'', VInt 0), (''c'', VInt 7), (''q'', VInt 2)]"
    by code_simp
  have b: "bits 0xE3 0 2 = 3" "bits 0xE3 2 3 = 0" "bits 0xE3 5 3 = 7"
    by (simp_all add: bits_def)
  have hyp: "well_formed ([(''p'', Simple 8)] @ packed_run 8 three_fields @ [(''q'', Simple 8)])
      \<and> well_formed [(''p'', Simple 8)] \<and> is_hex_string ''01E302''
      \<and> [(''p'', Simple 8)] @ packed_run 8 three_fields @ [(''q'', Simple 8)]
          = [(''p'', Simple 8)] @ packed_run 8 three_fields @ [(''q'', Simple 8)]
      \<and> start_bit three_fields (length three_fields) = 8 \<and> three_fields \<noteq> []
      \<and> parse_struct_from_hex
            ([(''p'', Simple 8)] @ packed_run 8 three_fields @ [(''q'', Simple 8)]) ''01E302''
          = Inr [(''p'', VInt 1), (''a'', VInt 3), (''b'', VInt 0), (''c'', VInt 7),
                 (''q'', VInt 2)]"
    by (intro conjI wf wfp hx refl fill ne prs)
  note concl = lsb_first_packing[THEN conjunct1, THEN mp, OF hyp]
  show ?thesis
    by (intro conjI wf wfp hx fill ne prs concl b)
qed

end
